theory Spec2Isabelle
  imports Main "HOL-Library.Sublist"
begin

section \<open>Data model of minesweeper\_solver.ts\<close>

text \<open>
  A JavaScript number as the solver meets it: \<open>parseInt\<close> returns an integer or
  \<open>NaN\<close>, and every other number of the program is a count or a coordinate.
  Integers are unbounded here (the rounding of doubles beyond \<open>2^53\<close> is left out).
\<close>

datatype jsnum = Num int | NaN

text \<open>\<open>interface Cell\<close>; the field \<open>value: number | null\<close> is \<open>cvalue\<close>, with
  \<open>None\<close> for \<open>null\<close>.\<close>

record Cell =
  revealed :: bool
  flagged :: bool
  cvalue :: "jsnum option"

text \<open>\<open>interface BoardState\<close>; \<open>board[row][col]\<close>.\<close>

record BoardState =
  board :: "Cell list list"
  width :: int
  height :: int
  gameOver :: bool

text \<open>A DOM element, as far as the snapshot reader looks at it: its \<open>id\<close> and its
  \<open>classList\<close>.\<close>

record Element =
  elemId :: string
  classList :: "string list"

text \<open>What the program can throw: the two \<open>Error\<close>s of \<open>getBoardState\<close>, the
  \<open>TypeError\<close> of JavaScript on a property read of \<open>undefined\<close> or \<open>null\<close>, the
  \<open>RangeError\<close> of \<open>Array(n)\<close> on a length that is no array length, and the errors
  with which a call of the browser (\<open>page.$\<close>, \<open>boundingBox\<close>, \<open>page.mouse.click\<close>,
  \<open>page.evaluate\<close>) is rejected.\<close>

datatype error = GameContainerNotFound | NoCellsWithValidIds | TypeError | RangeError | BrowserError

section \<open>Reading cells and enumerating neighbours\<close>

text \<open>\<open>board[row][col]\<close> followed by a property read: \<open>None\<close> stands for the
  \<open>TypeError\<close> JavaScript throws when \<open>board[row]\<close> or \<open>board[row][col]\<close> is
  \<open>undefined\<close>.\<close>

definition cellAt :: "Cell list list \<Rightarrow> int \<Rightarrow> int \<Rightarrow> Cell option" where
  "cellAt b row col =
     (if 0 \<le> row \<and> row < int (length b)
      then (if 0 \<le> col \<and> col < int (length (b ! nat row))
            then Some (b ! nat row ! nat col) else None)
      else None)"

text \<open>The double loop \<open>for dr = -1..1, for dc = -1..1\<close> of \<open>solveStep\<close> (lines 222-227
  and 291-296): the centre is skipped, and a position is kept when
  \<open>nr >= 0 && nr < height && nc >= 0 && nc < width\<close>.\<close>

definition neighborsOf :: "int \<Rightarrow> int \<Rightarrow> int \<Rightarrow> int \<Rightarrow> (int \<times> int) list" where
  "neighborsOf w h row col =
     [(row + dr, col + dc). dr \<leftarrow> [-1, 0, 1], dc \<leftarrow> [-1, 0, 1],
        \<not> (dr = 0 \<and> dc = 0),
        row + dr \<ge> 0 \<and> row + dr < h \<and> col + dc \<ge> 0 \<and> col + dc < w]"

definition inBounds :: "int \<Rightarrow> int \<Rightarrow> int \<Rightarrow> int \<Rightarrow> bool" where
  "inBounds w h row col = (0 \<le> row \<and> row < h \<and> 0 \<le> col \<and> col < w)"

definition isCorner :: "int \<Rightarrow> int \<Rightarrow> int \<Rightarrow> int \<Rightarrow> bool" where
  "isCorner w h row col = ((row = 0 \<or> row = h - 1) \<and> (col = 0 \<or> col = w - 1))"

definition isEdge :: "int \<Rightarrow> int \<Rightarrow> int \<Rightarrow> int \<Rightarrow> bool" where
  "isEdge w h row col = ((row = 0 \<or> row = h - 1) \<noteq> (col = 0 \<or> col = w - 1))"

definition isInterior :: "int \<Rightarrow> int \<Rightarrow> int \<Rightarrow> int \<Rightarrow> bool" where
  "isInterior w h row col = (0 < row \<and> row < h - 1 \<and> 0 < col \<and> col < w - 1)"

definition adjacent :: "int \<times> int \<Rightarrow> int \<times> int \<Rightarrow> bool" where
  "adjacent p q = (p \<noteq> q \<and> \<bar>fst p - fst q\<bar> \<le> 1 \<and> \<bar>snd p - snd q\<bar> \<le> 1)"

section \<open>The snapshot reader \<open>getBoardState\<close>\<close>

text \<open>\<open>Number\<close> on a string of decimal digits.\<close>

definition isDigit :: "char \<Rightarrow> bool" where
  "isDigit ch = (ch \<in> set ''0123456789'')"

definition digitVal :: "char \<Rightarrow> nat" where
  "digitVal ch = of_char ch - 48"

definition toNumber :: "string \<Rightarrow> int" where
  "toNumber ds = int (foldl (\<lambda>acc ch. 10 * acc + digitVal ch) 0 ds)"

text \<open>The regular expression \<open>/cell_(\d+)_(\d+)/\<close> tried at the start of a string.
  Both groups are greedy and a digit never matches \<open>_\<close>, so there is nothing to
  backtrack over: each group is the longest run of digits. The result is the pair of the
  two groups, as numbers: \<open>(col, row)\<close>.\<close>

definition matchHere :: "string \<Rightarrow> (int \<times> int) option" where
  "matchHere s =
     (if prefix ''cell_'' s
      then (let r1 = drop 5 s; d1 = takeWhile isDigit r1; r2 = dropWhile isDigit r1
            in if d1 = [] then None
               else (case r2 of
                       [] \<Rightarrow> None
                     | ch # r3 \<Rightarrow>
                         if ch = CHR ''_''
                         then (let d2 = takeWhile isDigit r3
                               in if d2 = [] then None else Some (toNumber d1, toNumber d2))
                         else None))
      else None)"

text \<open>\<open>id.match(/cell_(\d+)_(\d+)/)\<close>: the first position of the string where the
  expression matches; \<open>None\<close> is JavaScript's \<open>null\<close>.\<close>

fun matchCellId :: "string \<Rightarrow> (int \<times> int) option" where
  "matchCellId [] = None"
| "matchCellId (ch # s) =
     (case matchHere (ch # s) of Some r \<Rightarrow> Some r | None \<Rightarrow> matchCellId s)"

text \<open>Lines 69-72: \<open>const [, col, row] = id.match(...)!.map(Number); return [row, col]\<close>.
  A \<open>null\<close> match throws a \<open>TypeError\<close> at \<open>.map\<close>.\<close>

definition parseCoords :: "string \<Rightarrow> error + (int \<times> int)" where
  "parseCoords ident =
     (case matchCellId ident of None \<Rightarrow> Inl TypeError | Some (col, row) \<Rightarrow> Inr (row, col))"

fun mapE :: "('a \<Rightarrow> error + 'b) \<Rightarrow> 'a list \<Rightarrow> error + 'b list" where
  "mapE f [] = Inr []"
| "mapE f (x # xs) =
     (case f x of
        Inl e \<Rightarrow> Inl e
      | Inr y \<Rightarrow> (case mapE f xs of Inl e \<Rightarrow> Inl e | Inr ys \<Rightarrow> Inr (y # ys)))"

text \<open>\<open>Math.max(...xs)\<close> on a list that is not empty (line 74 throws on the empty one
  before) and that the engine can spread into arguments (a page with more cells than an
  engine takes arguments is left out).\<close>

fun maxList :: "int list \<Rightarrow> int" where
  "maxList [] = 0"
| "maxList (x # xs) = fold max xs x"

definition emptyCell :: Cell where
  "emptyCell = \<lparr>revealed = False, flagged = False, cvalue = None\<rparr>"

text \<open>Lines 94-115: the cell state read off an element's class list, and whether the
  element sets \<open>gameOver\<close>. \<open>parseInt\<close> is JavaScript's, a parameter here.
  \<open>valueClass\<close> starts with \<open>hdd_type\<close>, so \<open>replace('hdd_type', '')\<close> drops its first
  eight characters.\<close>

definition readCell :: "(string \<Rightarrow> jsnum) \<Rightarrow> string list \<Rightarrow> Cell \<times> bool" where
  "readCell parseInt' classes =
     (if ''hdd_opened'' \<in> set classes
      then (case find (prefix ''hdd_type'') classes of
              Some valueClass \<Rightarrow>
                (let v = parseInt' (drop 8 valueClass)
                 in if v = Num 10
                    then (\<lparr>revealed = True, flagged = False, cvalue = Some (Num (- 2))\<rparr>, True)
                    else if v = Num 11
                    then (\<lparr>revealed = True, flagged = False, cvalue = Some (Num (- 1))\<rparr>, True)
                    else (\<lparr>revealed = True, flagged = False, cvalue = Some v\<rparr>, False))
            | None \<Rightarrow> (\<lparr>revealed = True, flagged = False, cvalue = Some (Num 0)\<rparr>, False))
      else if ''hdd_flag'' \<in> set classes
      then (\<lparr>revealed = False, flagged = True, cvalue = None\<rparr>, False)
      else (\<lparr>revealed = False, flagged = False, cvalue = None\<rparr>, False))"

text \<open>\<open>board[row][col] = cellState\<close> (line 117). The positions written are those the
  dimensions were computed from, so they lie inside the board (lemma \<open>coords_in_range\<close>
  below).\<close>

definition setCell :: "Cell list list \<Rightarrow> int \<Rightarrow> int \<Rightarrow> Cell \<Rightarrow> Cell list list" where
  "setCell b row col c = b[nat row := (b ! nat row)[nat col := c]]"

text \<open>\<open>cells.forEach\<close> (lines 87-118), on the board and the \<open>gameOver\<close> flag.\<close>

fun populate ::
  "(string \<Rightarrow> jsnum) \<Rightarrow> Element list \<Rightarrow> Cell list list \<times> bool \<Rightarrow> error + (Cell list list \<times> bool)"
where
  "populate parseInt' [] acc = Inr acc"
| "populate parseInt' (cell # cells) (b, over) =
     (if \<not> prefix ''cell_'' (elemId cell) then populate parseInt' cells (b, over)
      else (case matchCellId (elemId cell) of
              None \<Rightarrow> Inl TypeError
            | Some (col, row) \<Rightarrow>
                (let (cellState, mine) = readCell parseInt' (classList cell)
                 in populate parseInt' cells (setCell b row col cellState, over \<or> mine))))"

text \<open>The function evaluated in the page (lines 55-122). Its argument is what
  \<open>document.querySelector('#game')\<close> finds: \<open>None\<close> when there is no such element, and
  otherwise the elements below it in document order, of which
  \<open>querySelectorAll('[id^="cell_"]')\<close> keeps those whose id starts with \<open>cell_\<close>.
  \<open>height\<close> is at least 1, so \<open>Array(width)\<close> (line 82) is evaluated, and it throws a
  \<open>RangeError\<close> when \<open>width\<close> is more than \<open>2^32 - 1\<close>.\<close>

definition readBoard :: "(string \<Rightarrow> jsnum) \<Rightarrow> Element list option \<Rightarrow> error + BoardState" where
  "readBoard parseInt' game =
     (case game of
        None \<Rightarrow> Inl GameContainerNotFound
      | Some elems \<Rightarrow>
          (let cells = filter (\<lambda>e. prefix ''cell_'' (elemId e)) elems;
               cellIds = map elemId cells
           in case mapE parseCoords (filter (prefix ''cell_'') cellIds) of
                Inl e \<Rightarrow> Inl e
              | Inr coords \<Rightarrow>
                  if length coords = 0 then Inl NoCellsWithValidIds
                  else (let h = maxList (map fst coords) + 1;
                            w = maxList (map snd coords) + 1;
                            b0 = replicate (nat h) (replicate (nat w) emptyCell)
                        in if w > 4294967295 then Inl RangeError
                           else (case populate parseInt' cells (b0, False) of
                                   Inl e \<Rightarrow> Inl e
                                 | Inr (b, over) \<Rightarrow>
                                     Inr \<lparr>board = b, width = w, height = h, gameOver = over\<rparr>))))"

text \<open>\<open>page.evaluate\<close> (line 55) hands the board to the caller by value, through the
  serialisation of the protocol: what arrives is a copy in which a number that is \<open>NaN\<close>
  has become \<open>null\<close>. Booleans, integers and \<open>null\<close> arrive as they are.\<close>

definition byValueCell :: "Cell \<Rightarrow> Cell" where
  "byValueCell c = (if cvalue c = Some NaN then c\<lparr>cvalue := None\<rparr> else c)"

definition byValue :: "BoardState \<Rightarrow> BoardState" where
  "byValue bs = bs\<lparr>board := map (map byValueCell) (board bs)\<rparr>"

section \<open>The world outside the solver\<close>

text \<open>
  The page and the game behind it are a state \<open>'w\<close> that the solver only touches through
  these operations:
  \<^item> \<open>parseInt\<close>, JavaScript's;
  \<^item> \<open>gameElements\<close>, what a call of \<open>page.evaluate\<close> finds in that state: the error
    with which the browser rejects the call before the function runs, or what \<open>#game\<close>
    holds;
  \<^item> \<open>delay ms\<close>, the world after waiting \<open>ms\<close> milliseconds;
  \<^item> \<open>clickCell w row col isRightClick\<close>, the call
    \<open>clickCell(page, row, col, isRightClick)\<close> (lines 129-178: browser calls only): the
    world after it, and the error when the promise is rejected. \<open>page.$\<close> (line 133) is
    awaited outside any \<open>try\<close>, and \<open>boundingBox\<close> and \<open>page.mouse.click\<close> (lines
    144-151) inside the \<open>catch\<close>, so an error of theirs leaves \<open>clickCell\<close>; a call that
    finds no cell or no bounding box returns without an error;
  \<^item> \<open>randomIndex w n\<close>, the value of \<open>Math.floor(Math.random() * n)\<close> and the world
    after it.
  Console output is not modelled, and neither is \<open>printBoardState\<close>, which prints the
  cells \<open>board[row][col]\<close> for \<open>row < height\<close> and \<open>col < width\<close> of the snapshot it is
  given (they exist: lemma \<open>getBoardState_wellFormed\<close> below).
\<close>

record 'w env =
  parseInt :: "string \<Rightarrow> jsnum"
  gameElements :: "'w \<Rightarrow> error + Element list option"
  delay :: "nat \<Rightarrow> 'w \<Rightarrow> 'w"
  clickCell :: "'w \<Rightarrow> int \<Rightarrow> int \<Rightarrow> bool \<Rightarrow> error option \<times> 'w"
  randomIndex :: "'w \<Rightarrow> nat \<Rightarrow> nat \<times> 'w"

text \<open>\<open>getBoardState\<close> (lines 52-126): wait a second, then evaluate the reader in the
  page; the board comes back by value. The error is the rejection of the promise.\<close>

definition getBoardState :: "'w env \<Rightarrow> 'w \<Rightarrow> (error + BoardState) \<times> 'w" where
  "getBoardState env w =
     (let w1 = delay env 1000 w
      in (case gameElements env w1 of
            Inl e \<Rightarrow> Inl e
          | Inr game \<Rightarrow>
              (case readBoard (parseInt env) game of
                 Inl e \<Rightarrow> Inl e
               | Inr bs \<Rightarrow> Inr (byValue bs)),
          w1))"

section \<open>One solving step\<close>

datatype kind = Reveal | Flag

text \<open>An action is a call of \<open>clickCell\<close>: row, column, and the kind of click.\<close>

type_synonym action = "int \<times> int \<times> kind"

text \<open>The variables of \<open>solveStep\<close>: \<open>board\<close>, \<open>width\<close>, \<open>height\<close>, \<open>gameOver\<close> and
  \<open>actionTaken\<close>, with the world and a log of the step: every call of \<open>clickCell\<close>,
  each with what followed it: the error with which the click was rejected, or else the
  result of the \<open>getBoardState\<close> after it.\<close>

record 'w vars = BoardState +
  world :: 'w
  actionTaken :: bool
  trace :: "(action \<times> (error + BoardState)) list"

text \<open>How a piece of the step ends: it falls through to the next statement, it returns
  from \<open>solveStep\<close>, or it throws.\<close>

datatype signal = Continue | Return bool | Throw error

text \<open>Lines 247-258 and 266-277: click, take a new snapshot into the variables, return
  \<open>false\<close> when the game is over, set \<open>actionTaken\<close> otherwise. Neither \<open>await\<close> is
  inside a \<open>try\<close>: a rejected click or snapshot is thrown by \<open>solveStep\<close>.\<close>

definition clickAndRefresh :: "'w env \<Rightarrow> int \<Rightarrow> int \<Rightarrow> bool \<Rightarrow> 'w vars \<Rightarrow> signal \<times> 'w vars" where
  "clickAndRefresh env nr nc isRightClick st =
     (let a = (nr, nc, if isRightClick then Flag else Reveal)
      in case clickCell env (world st) nr nc isRightClick of
           (Some e, w1) \<Rightarrow> (Throw e, st\<lparr>world := w1, trace := trace st @ [(a, Inl e)]\<rparr>)
         | (None, w1) \<Rightarrow>
             (let (newState, w2) = getBoardState env w1;
                  st1 = st\<lparr>world := w2, trace := trace st @ [(a, newState)]\<rparr>
              in case newState of
                   Inl e \<Rightarrow> (Throw e, st1)
                 | Inr ns \<Rightarrow>
                     (let st2 = st1\<lparr>board := board ns, width := width ns, height := height ns,
                                    gameOver := gameOver ns\<rparr>
                      in if gameOver st2 then (Return False, st2)
                         else (Continue, st2\<lparr>actionTaken := True\<rparr>))))"

text \<open>Lines 242-259, the loop of rule 1 over \<open>neighbors\<close>. \<open>board[nr][nc].flagged\<close> reads
  the board of the latest snapshot.\<close>

fun flagLoop :: "'w env \<Rightarrow> (int \<times> int) list \<Rightarrow> 'w vars \<Rightarrow> signal \<times> 'w vars" where
  "flagLoop env [] st = (Continue, st)"
| "flagLoop env ((nr, nc) # rest) st =
     (case cellAt (board st) nr nc of
        None \<Rightarrow> (Throw TypeError, st)
      | Some c \<Rightarrow>
          if flagged c then flagLoop env rest st
          else (case clickAndRefresh env nr nc True st of
                  (Continue, st1) \<Rightarrow> flagLoop env rest st1
                | (sig, st1) \<Rightarrow> (sig, st1)))"

text \<open>Lines 265-278, the loop of rule 2 over \<open>neighbors\<close>.\<close>

fun revealLoop :: "'w env \<Rightarrow> (int \<times> int) list \<Rightarrow> 'w vars \<Rightarrow> signal \<times> 'w vars" where
  "revealLoop env [] st = (Continue, st)"
| "revealLoop env ((nr, nc) # rest) st =
     (case clickAndRefresh env nr nc False st of
        (Continue, st1) \<Rightarrow> revealLoop env rest st1
      | (sig, st1) \<Rightarrow> (sig, st1))"

text \<open>Lines 218-237, over the positions \<open>neighborsOf\<close> enumerates: the accumulator is
  \<open>(unopenedNeighbors, flaggedNeighbors, neighbors)\<close>.\<close>

fun countNeighbors ::
  "Cell list list \<Rightarrow> (int \<times> int) list \<Rightarrow> int \<times> int \<times> (int \<times> int) list \<Rightarrow>
   error + (int \<times> int \<times> (int \<times> int) list)"
where
  "countNeighbors b [] acc = Inr acc"
| "countNeighbors b ((nr, nc) # ps) (u, f, ns) =
     (case cellAt b nr nc of
        None \<Rightarrow> Inl TypeError
      | Some neighbor \<Rightarrow>
          if \<not> revealed neighbor \<and> \<not> flagged neighbor
          then countNeighbors b ps (u + 1, f, ns @ [(nr, nc)])
          else if flagged neighbor then countNeighbors b ps (u, f + 1, ns)
          else countNeighbors b ps (u, f, ns))"

text \<open>The conditions of lines 240 and 263. With \<open>NaN\<close> for the value, \<open>===\<close> is false in
  both.\<close>

definition rule1 :: "int \<Rightarrow> jsnum \<Rightarrow> int \<Rightarrow> bool" where
  "rule1 u v f = (u > 0 \<and> (case v of Num n \<Rightarrow> u = n - f | NaN \<Rightarrow> False))"

definition rule2 :: "int \<Rightarrow> jsnum \<Rightarrow> int \<Rightarrow> bool" where
  "rule2 u v f = (u > 0 \<and> v = Num f)"

text \<open>Lines 214-279, the body of the double loop at \<open>(row, col)\<close>.\<close>

definition solveCell :: "'w env \<Rightarrow> int \<Rightarrow> int \<Rightarrow> 'w vars \<Rightarrow> signal \<times> 'w vars" where
  "solveCell env row col st =
     (case cellAt (board st) row col of
        None \<Rightarrow> (Throw TypeError, st)
      | Some cell \<Rightarrow>
          (case cvalue cell of
             None \<Rightarrow> (Continue, st)
           | Some v \<Rightarrow>
               if \<not> revealed cell \<or> v = Num 0 \<or> v = Num (- 1) \<or> v = Num (- 2) then (Continue, st)
               else (case countNeighbors (board st) (neighborsOf (width st) (height st) row col)
                            (0, 0, []) of
                       Inl e \<Rightarrow> (Throw e, st)
                     | Inr (u, f, ns) \<Rightarrow>
                         (case (if rule1 u v f then flagLoop env ns st else (Continue, st)) of
                            (Continue, st1) \<Rightarrow>
                              if rule2 u v f then revealLoop env ns st1 else (Continue, st1)
                          | (sig, st1) \<Rightarrow> (sig, st1)))))"

text \<open>Lines 212-281: \<open>for (row = 0; row < height; row++) for (col = 0; col < width; col++)\<close>.
  The bounds are read from the variables at every test, and the body may change them, so
  nothing bounds the number of rounds: not returning is \<open>None\<close>.\<close>

partial_function (option) scan ::
  "'w env \<Rightarrow> int \<Rightarrow> int \<Rightarrow> 'w vars \<Rightarrow> (signal \<times> 'w vars) option"
where
  "scan env row col st =
     (if row < height st
      then (if col < width st
            then (case solveCell env row col st of
                    (Continue, st1) \<Rightarrow> scan env row (col + 1) st1
                  | (sig, st1) \<Rightarrow> Some (sig, st1))
            else scan env (row + 1) 0 st)
      else Some (Continue, st))"

declare scan.simps [code]

text \<open>Lines 290-302: the first neighbour that is revealed ends both loops.\<close>

fun hasRevealedNeighbor :: "Cell list list \<Rightarrow> (int \<times> int) list \<Rightarrow> error + bool" where
  "hasRevealedNeighbor b [] = Inr False"
| "hasRevealedNeighbor b ((nr, nc) # ps) =
     (case cellAt b nr nc of
        None \<Rightarrow> Inl TypeError
      | Some n \<Rightarrow> if revealed n then Inr True else hasRevealedNeighbor b ps)"

text \<open>The positions of the board in the order of the double loop over rows and columns.\<close>

definition positions :: "int \<Rightarrow> int \<Rightarrow> (int \<times> int) list" where
  "positions w h = [(row, col). row \<leftarrow> [0..h - 1], col \<leftarrow> [0..w - 1]]"

text \<open>Lines 285-306, over \<open>positions\<close>.\<close>

fun collectCandidates ::
  "Cell list list \<Rightarrow> int \<Rightarrow> int \<Rightarrow> (int \<times> int) list \<Rightarrow> (int \<times> int) list \<Rightarrow>
   error + (int \<times> int) list"
where
  "collectCandidates b w h [] cands = Inr cands"
| "collectCandidates b w h ((row, col) # ps) cands =
     (case cellAt b row col of
        None \<Rightarrow> Inl TypeError
      | Some cell \<Rightarrow>
          if \<not> revealed cell \<and> \<not> flagged cell
          then (case hasRevealedNeighbor b (neighborsOf w h row col) of
                  Inl e \<Rightarrow> Inl e
                | Inr found \<Rightarrow>
                    collectCandidates b w h ps (if found then cands @ [(row, col)] else cands))
          else collectCandidates b w h ps cands)"

definition candidates :: "Cell list list \<Rightarrow> int \<Rightarrow> int \<Rightarrow> error + (int \<times> int) list" where
  "candidates b w h = collectCandidates b w h (positions w h) []"

text \<open>Lines 284-322, rule 3. An index outside \<open>candidates\<close> would give \<open>undefined\<close>,
  and destructuring it throws. The snapshot after the click stays in \<open>newState\<close>: the
  variables \<open>board\<close>, \<open>width\<close>, \<open>height\<close> and \<open>gameOver\<close> keep their values.\<close>

definition randomMove :: "'w env \<Rightarrow> 'w vars \<Rightarrow> signal \<times> 'w vars" where
  "randomMove env st =
     (case candidates (board st) (width st) (height st) of
        Inl e \<Rightarrow> (Throw e, st)
      | Inr cands \<Rightarrow>
          if length cands > 0
          then (let (i, w1) = randomIndex env (world st) (length cands)
                in if i < length cands
                   then (let (row, col) = cands ! i
                         in case clickCell env w1 row col False of
                              (Some e, w2) \<Rightarrow>
                                (Throw e,
                                 st\<lparr>world := w2, trace := trace st @ [((row, col, Reveal), Inl e)]\<rparr>)
                            | (None, w2) \<Rightarrow>
                                (let (newState, w3) = getBoardState env w2;
                                     st1 = st\<lparr>world := w3,
                                              trace := trace st @ [((row, col, Reveal), newState)]\<rparr>
                                 in case newState of
                                      Inl e \<Rightarrow> (Throw e, st1)
                                    | Inr ns \<Rightarrow>
                                        if gameOver ns then (Return False, st1)
                                        else (Continue, st1\<lparr>actionTaken := True\<rparr>)))
                   else (Throw TypeError, st\<lparr>world := w1\<rparr>))
          else (Continue, st))"

text \<open>The variables after the first snapshot of a step (lines 199 and 209).\<close>

definition initVars :: "BoardState \<Rightarrow> 'w \<Rightarrow> 'w vars" where
  "initVars bs w =
     \<lparr>board = board bs, width = width bs, height = height bs, gameOver = gameOver bs,
      world = w, actionTaken = False, trace = []\<rparr>"

text \<open>\<open>solveStep\<close> (lines 198-326). The result is \<open>Return b\<close> or \<open>Throw e\<close>, with the
  variables at that point; \<open>None\<close> when the scan never ends.\<close>

definition solveStep :: "'w env \<Rightarrow> 'w \<Rightarrow> (signal \<times> 'w vars) option" where
  "solveStep env w =
     (let (first, w1) = getBoardState env w
      in case first of
           Inl e \<Rightarrow> Some (Throw e, initVars \<lparr>board = [], width = 0, height = 0, gameOver = False\<rparr> w1)
         | Inr bs \<Rightarrow>
             if gameOver bs then Some (Return False, initVars bs w1)
             else (case scan env 0 0 (initVars bs w1) of
                     None \<Rightarrow> None
                   | Some (Continue, st) \<Rightarrow>
                       if \<not> actionTaken st
                       then (case randomMove env st of
                               (Continue, st1) \<Rightarrow> Some (Return (actionTaken st1), st1)
                             | (sig, st1) \<Rightarrow> Some (sig, st1))
                       else Some (Return (actionTaken st), st)
                   | Some (sig, st) \<Rightarrow> Some (sig, st)))"

section \<open>The solving loop\<close>

text \<open>Lines 353-361: \<open>while (maxIterations--)\<close>, with the results of the calls of
  \<open>solveStep\<close> so far. A step that throws ends the program.\<close>

fun solvingLoop ::
  "'w env \<Rightarrow> nat \<Rightarrow> 'w \<Rightarrow> signal list \<Rightarrow> (signal list \<times> 'w) option"
where
  "solvingLoop env 0 w results = Some (results, w)"
| "solvingLoop env (Suc n) w results =
     (case solveStep env w of
        None \<Rightarrow> None
      | Some (Return True, st) \<Rightarrow>
          solvingLoop env n (delay env 1000 (world st)) (results @ [Return True])
      | Some (sig, st) \<Rightarrow> Some (results @ [sig], world st))"

definition mainLoop :: "'w env \<Rightarrow> 'w \<Rightarrow> (signal list \<times> 'w) option" where
  "mainLoop env w = solvingLoop env 100 w []"

section \<open>Notions the properties are stated with\<close>



text \<open>A board with \<open>height\<close> rows of \<open>width\<close> cells each, and at least one cell. Every
  snapshot is one (lemma \<open>getBoardState_wellFormed\<close>), and so are the variables of
  \<open>solveStep\<close> at every cell the scan reaches (lemma \<open>scan_wellFormed\<close>).\<close>

definition wellFormed :: "'a BoardState_scheme \<Rightarrow> bool" where
  "wellFormed bs =
     (0 < height bs \<and> 0 < width bs \<and> int (length (board bs)) = height bs \<and>
      (\<forall>r \<in> set (board bs). int (length r) = width bs))"

text \<open>The two kinds of action at a position.\<close>

definition flagAction :: "int \<times> int \<Rightarrow> action" where
  "flagAction p = (fst p, snd p, Flag)"

definition revealAction :: "int \<times> int \<Rightarrow> action" where
  "revealAction p = (fst p, snd p, Reveal)"

text \<open>What a board shows at a position; all three are false outside the board.\<close>

definition unopenedAt :: "Cell list list \<Rightarrow> int \<times> int \<Rightarrow> bool" where
  "unopenedAt b p =
     (case cellAt b (fst p) (snd p) of Some c \<Rightarrow> \<not> revealed c \<and> \<not> flagged c | None \<Rightarrow> False)"

definition flaggedAt :: "Cell list list \<Rightarrow> int \<times> int \<Rightarrow> bool" where
  "flaggedAt b p = (case cellAt b (fst p) (snd p) of Some c \<Rightarrow> flagged c | None \<Rightarrow> False)"

definition revealedAt :: "Cell list list \<Rightarrow> int \<times> int \<Rightarrow> bool" where
  "revealedAt b p = (case cellAt b (fst p) (snd p) of Some c \<Rightarrow> revealed c | None \<Rightarrow> False)"

text \<open>The neighbours of a cell that are neither revealed nor flagged, and those that are
  flagged, in the order of the enumeration: the list \<open>neighbors\<close> of line 220, whose
  length is \<open>unopenedNeighbors\<close>, and the cells that \<open>flaggedNeighbors\<close> counts (lemma
  \<open>countNeighbors_spec\<close>).\<close>

definition unopenedNeighbors :: "'a BoardState_scheme \<Rightarrow> int \<Rightarrow> int \<Rightarrow> (int \<times> int) list" where
  "unopenedNeighbors st row col =
     filter (unopenedAt (board st)) (neighborsOf (width st) (height st) row col)"

definition flaggedNeighbors :: "'a BoardState_scheme \<Rightarrow> int \<Rightarrow> int \<Rightarrow> (int \<times> int) list" where
  "flaggedNeighbors st row col =
     filter (flaggedAt (board st)) (neighborsOf (width st) (height st) row col)"

text \<open>A piece of the step was cut short at its latest action: the snapshot after it is game
  over and the step returns \<open>false\<close>, or the click was rejected or the snapshot after it
  failed, and the step throws that error.\<close>

definition interrupted :: "signal \<Rightarrow> (action \<times> (error + BoardState)) list \<Rightarrow> bool" where
  "interrupted sig new =
     (new \<noteq> [] \<and>
      (case snd (last new) of
         Inr bs \<Rightarrow> gameOver bs \<and> sig = Return False
       | Inl e \<Rightarrow> sig = Throw e))"

text \<open>Some snapshot of a log shows the position flagged.\<close>

definition shownFlagged :: "(action \<times> (error + BoardState)) list \<Rightarrow> int \<times> int \<Rightarrow> bool" where
  "shownFlagged tr p =
     list_ex (\<lambda>(a, snap). case snap of Inr bs \<Rightarrow> flaggedAt (board bs) p | Inl e \<Rightarrow> False) tr"

text \<open>Every click of a log was followed by a snapshot that was read, and none of these is
  game over.\<close>

definition quiet :: "(action \<times> (error + BoardState)) list \<Rightarrow> bool" where
  "quiet tr = list_all (\<lambda>(a, snap). case snap of Inr bs \<Rightarrow> \<not> gameOver bs | Inl e \<Rightarrow> False) tr"

text \<open>The variables while the step goes on: the log is quiet, and \<open>actionTaken\<close> says
  whether it is empty.\<close>

definition steady :: "'w vars \<Rightarrow> bool" where
  "steady st = (quiet (trace st) \<and> (actionTaken st \<longleftrightarrow> trace st \<noteq> []))"

text \<open>What holds when a piece of the step ends with a signal: it goes on with steady
  variables; it returns \<open>false\<close> after a game-over snapshot; it throws the error of a
  rejected click or of a failed snapshot, or a \<open>TypeError\<close>.\<close>

definition outcome :: "signal \<Rightarrow> 'w vars \<Rightarrow> bool" where
  "outcome sig st =
     (case sig of
        Continue \<Rightarrow> steady st
      | Return b \<Rightarrow> \<not> b \<and> quiet (butlast (trace st)) \<and> interrupted sig (trace st)
      | Throw e \<Rightarrow> (quiet (butlast (trace st)) \<and> interrupted sig (trace st)) \<or>
                   (e = TypeError \<and> quiet (trace st)))"

text \<open>A cell that is neither revealed nor flagged and has a revealed neighbour.\<close>

definition isCandidate :: "'a BoardState_scheme \<Rightarrow> int \<times> int \<Rightarrow> bool" where
  "isCandidate st p =
     (unopenedAt (board st) p \<and>
      (\<exists>q \<in> set (neighborsOf (width st) (height st) (fst p) (snd p)). revealedAt (board st) q))"

text \<open>Every snapshot of the world has the same width and height.\<close>

definition fixedSize :: "'w env \<Rightarrow> int \<Rightarrow> int \<Rightarrow> bool" where
  "fixedSize env w h =
     (\<forall>x bs. fst (getBoardState env x) = Inr bs \<longrightarrow> width bs = w \<and> height bs = h)"

text \<open>A set of states of the world that the solver does not leave, whatever it clicks,
  and in which every snapshot has the same width and height: the states of a page whose
  cells keep their ids, for example.\<close>

definition keepsSize :: "'w env \<Rightarrow> 'w set \<Rightarrow> int \<Rightarrow> int \<Rightarrow> bool" where
  "keepsSize env S w h =
     (\<forall>x \<in> S. delay env 1000 x \<in> S \<and>
        (\<forall>row col isRightClick. snd (clickCell env x row col isRightClick) \<in> S) \<and>
        (\<forall>n. snd (randomIndex env x n) \<in> S) \<and>
        (\<forall>bs. fst (getBoardState env x) = Inr bs \<longrightarrow> width bs = w \<and> height bs = h))"

text \<open>The variables with which a step begins in a world.\<close>

definition startOf :: "'w env \<Rightarrow> 'w \<Rightarrow> 'w vars" where
  "startOf env w =
     (case getBoardState env w of
        (Inr bs, w1) \<Rightarrow> initVars bs w1
      | (Inl e, w1) \<Rightarrow> initVars \<lparr>board = [], width = 0, height = 0, gameOver = False\<rparr> w1)"

text \<open>A log is what the world gave, from one state of the world to another: every entry
  is a call of \<open>clickCell\<close> in the state the entry before it left; when the click is
  rejected, the entry holds its error and is the last one; otherwise the entry holds the
  result of \<open>getBoardState\<close> in the state after the click.\<close>

fun genuine :: "'w env \<Rightarrow> 'w \<Rightarrow> (action \<times> (error + BoardState)) list \<Rightarrow> 'w \<Rightarrow> bool" where
  "genuine env w [] w' = (w' = w)"
| "genuine env w (((row, col, k), snap) # rest) w' =
     (case clickCell env w row col (k = Flag) of
        (Some e, w1) \<Rightarrow> snap = Inl e \<and> rest = [] \<and> w' = w1
      | (None, w1) \<Rightarrow>
          (case getBoardState env w1 of (s, w2) \<Rightarrow> snap = s \<and> genuine env w2 rest w'))"

text \<open>From the variables \<open>st\<close> to the variables \<open>st'\<close> the log grew by entries that are
  what the world gave, from the world of \<open>st\<close> to that of \<open>st'\<close>; and they are quiet
  when the signal is to go on.\<close>

definition logged :: "'w env \<Rightarrow> 'w vars \<Rightarrow> signal \<Rightarrow> 'w vars \<Rightarrow> bool" where
  "logged env st sig st' =
     (\<exists>new. trace st' = trace st @ new \<and> genuine env (world st) new (world st') \<and>
        (sig = Continue \<longrightarrow> quiet new))"

text \<open>Rule 1 in the words of the specification, as a property of the log that a list of
  cells leaves: the cells are taken in order, with the board of the latest snapshot as the
  current board. A cell that the current board shows flagged is passed over. Any other
  cell gets the next entry of the log, a \<open>Flag\<close> on it; when the entry holds an error, or
  a snapshot that is game over, it is the last one and the signal is that error, or
  \<open>false\<close>; otherwise the board of its snapshot is the current board from then on. A
  cell that the current board does not have ends the log with a \<open>TypeError\<close>. When the
  cells are used up, so is the log.\<close>

fun flagsInTurn ::
  "Cell list list \<Rightarrow> (int \<times> int) list \<Rightarrow> (action \<times> (error + BoardState)) list \<Rightarrow> signal \<Rightarrow> bool"
where
  "flagsInTurn b [] new sig = (new = [] \<and> sig = Continue)"
| "flagsInTurn b (p # rest) new sig =
     (case cellAt b (fst p) (snd p) of
        None \<Rightarrow> new = [] \<and> sig = Throw TypeError
      | Some c \<Rightarrow>
          if flagged c then flagsInTurn b rest new sig
          else (case new of
                  [] \<Rightarrow> False
                | (a, snap) # new' \<Rightarrow>
                    a = flagAction p \<and>
                    (case snap of
                       Inl e \<Rightarrow> new' = [] \<and> sig = Throw e
                     | Inr bs \<Rightarrow>
                         if gameOver bs then new' = [] \<and> sig = Return False
                         else flagsInTurn (board bs) rest new' sig)))"

text \<open>Rule 2 in the same way: every cell of the list gets the next entry of the log, a
  \<open>Reveal\<close> on it, whatever the boards show; an entry with an error or with a snapshot
  that is game over is the last one.\<close>

fun revealsInTurn ::
  "(int \<times> int) list \<Rightarrow> (action \<times> (error + BoardState)) list \<Rightarrow> signal \<Rightarrow> bool"
where
  "revealsInTurn [] new sig = (new = [] \<and> sig = Continue)"
| "revealsInTurn (p # rest) new sig =
     (case new of
        [] \<Rightarrow> False
      | (a, snap) # new' \<Rightarrow>
          a = revealAction p \<and>
          (case snap of
             Inl e \<Rightarrow> new' = [] \<and> sig = Throw e
           | Inr bs \<Rightarrow>
               if gameOver bs then new' = [] \<and> sig = Return False
               else revealsInTurn rest new' sig))"

section \<open>Example pages and worlds\<close>

text \<open>\<open>parseInt\<close> for the example pages: the number of the leading decimal digits,
  \<open>NaN\<close> when there is none. This is JavaScript's \<open>parseInt\<close> on every string that
  starts with neither white space, a sign, \<open>0x\<close> nor \<open>0X\<close> and whose leading digits are
  a number below \<open>2^53\<close>; the value classes of the example pages end in \<open>0\<close>, \<open>1\<close>,
  \<open>2\<close>, \<open>10\<close>, \<open>11\<close> or \<open>X\<close>.\<close>

definition parseIntDec :: "string \<Rightarrow> jsnum" where
  "parseIntDec s = (let ds = takeWhile isDigit s in if ds = [] then NaN else Num (toNumber ds))"

text \<open>The id \<open>cell_<col>_<row>\<close> of a cell, for coordinates below 10.\<close>

definition cellId :: "int \<Rightarrow> int \<Rightarrow> string" where
  "cellId row col = ''cell_'' @ [''0123456789'' ! nat col] @ ''_'' @ [''0123456789'' ! nat row]"

definition setClasses :: "string \<Rightarrow> string list \<Rightarrow> Element list \<Rightarrow> Element list" where
  "setClasses ident cls w = map (\<lambda>e. if elemId e = ident then e\<lparr>classList := cls\<rparr> else e) w"

text \<open>A world that is the list of the elements under \<open>#game\<close>. A click at a position
  gives new class lists to the elements that a table names for that position, one table for
  the right button and one for the left; no call of the browser is rejected, waiting
  changes nothing, and the random index is always 0.\<close>

definition toyEnv ::
  "(int \<times> int \<Rightarrow> (string \<times> string list) list) \<Rightarrow>
   (int \<times> int \<Rightarrow> (string \<times> string list) list) \<Rightarrow> Element list env"
where
  "toyEnv onRight onLeft =
     \<lparr>parseInt = parseIntDec,
      gameElements = (\<lambda>w. Inr (Some w)),
      delay = (\<lambda>ms w. w),
      clickCell = (\<lambda>w row col isRightClick.
         (None, fold (\<lambda>(ident, cls). setClasses ident cls)
                  ((if isRightClick then onRight else onLeft) (row, col)) w)),
      randomIndex = (\<lambda>w n. (0, w))\<rparr>"

text \<open>Tables: the click puts a flag on the cell; it opens the cell on a mine; it opens
  the cell on a 1.\<close>

definition setsFlag :: "int \<times> int \<Rightarrow> (string \<times> string list) list" where
  "setsFlag p = [(cellId (fst p) (snd p), [''cell'', ''hdd_flag''])]"

definition opensMine :: "int \<times> int \<Rightarrow> (string \<times> string list) list" where
  "opensMine p = [(cellId (fst p) (snd p), [''cell'', ''hdd_opened'', ''hdd_type11''])]"

definition opensOne :: "int \<times> int \<Rightarrow> (string \<times> string list) list" where
  "opensOne p = [(cellId (fst p) (snd p), [''cell'', ''hdd_opened'', ''hdd_type1''])]"

text \<open>The worlds of the examples: the right click flags and the left click does nothing;
  the right click opens the cell on a mine; the left click opens the cell on a 1; the left
  click opens the cell on a mine.\<close>

definition envFlags :: "Element list env" where
  "envFlags = toyEnv setsFlag (\<lambda>p. [])"

definition envRightClickOpens :: "Element list env" where
  "envRightClickOpens = toyEnv opensMine (\<lambda>p. [])"

definition envOpens :: "Element list env" where
  "envOpens = toyEnv setsFlag opensOne"

definition envWrongFlag :: "Element list env" where
  "envWrongFlag = toyEnv setsFlag opensMine"

text \<open>A world for \<open>pageB\<close> in which a right click anywhere puts a flag on both
  \<open>(0, 1)\<close> and \<open>(1, 0)\<close>.\<close>

definition flagsBoth :: "int \<times> int \<Rightarrow> (string \<times> string list) list" where
  "flagsBoth p = [(''cell_1_0'', [''cell'', ''hdd_flag'']), (''cell_0_1'', [''cell'', ''hdd_flag''])]"

definition envFlagsBoth :: "Element list env" where
  "envFlagsBoth = toyEnv flagsBoth (\<lambda>p. [])"


text \<open>A 2 x 2 page for rule 1: the cell \<open>(0, 0)\<close> shows 2 and has two unopened
  neighbours.\<close>

definition pageB :: "Element list" where
  "pageB =
     [\<lparr>elemId = ''cell_0_0'', classList = [''cell'', ''hdd_opened'', ''hdd_type2'']\<rparr>,
      \<lparr>elemId = ''cell_1_0'', classList = [''cell'', ''hdd_closed'']\<rparr>,
      \<lparr>elemId = ''cell_0_1'', classList = [''cell'', ''hdd_closed'']\<rparr>,
      \<lparr>elemId = ''cell_1_1'', classList = [''cell'', ''hdd_opened'', ''hdd_type2'']\<rparr>]"

text \<open>A 2 x 2 page for rule 2: the cell \<open>(0, 0)\<close> shows 1 and has one flagged and two
  unopened neighbours.\<close>

definition pageC :: "Element list" where
  "pageC =
     [\<lparr>elemId = ''cell_0_0'', classList = [''cell'', ''hdd_opened'', ''hdd_type1'']\<rparr>,
      \<lparr>elemId = ''cell_1_0'', classList = [''cell'', ''hdd_flag'']\<rparr>,
      \<lparr>elemId = ''cell_0_1'', classList = [''cell'', ''hdd_closed'']\<rparr>,
      \<lparr>elemId = ''cell_1_1'', classList = [''cell'', ''hdd_closed'']\<rparr>]"

text \<open>A page of three rows and two columns with its only mine under the flag at
  \<open>(0, 0)\<close>; the cell \<open>(1, 0)\<close> shows 1. In its game the cells \<open>(0, 1)\<close> and \<open>(1, 1)\<close>
  open on a 1, and \<open>(2, 0)\<close> opens on a 0, which opens \<open>(2, 1)\<close> with it.\<close>

definition pageD :: "Element list" where
  "pageD =
     [\<lparr>elemId = ''cell_0_0'', classList = [''cell'', ''hdd_flag'']\<rparr>,
      \<lparr>elemId = ''cell_1_0'', classList = [''cell'', ''hdd_closed'']\<rparr>,
      \<lparr>elemId = ''cell_0_1'', classList = [''cell'', ''hdd_opened'', ''hdd_type1'']\<rparr>,
      \<lparr>elemId = ''cell_1_1'', classList = [''cell'', ''hdd_closed'']\<rparr>,
      \<lparr>elemId = ''cell_0_2'', classList = [''cell'', ''hdd_closed'']\<rparr>,
      \<lparr>elemId = ''cell_1_2'', classList = [''cell'', ''hdd_closed'']\<rparr>]"

definition opensD :: "int \<times> int \<Rightarrow> (string \<times> string list) list" where
  "opensD p =
     (if p = (0, 1) then [(''cell_1_0'', [''cell'', ''hdd_opened'', ''hdd_type1''])]
      else if p = (1, 1) then [(''cell_1_1'', [''cell'', ''hdd_opened'', ''hdd_type1''])]
      else if p = (2, 0) then [(''cell_0_2'', [''cell'', ''hdd_opened'', ''hdd_type0'']),
                               (''cell_1_2'', [''cell'', ''hdd_opened'', ''hdd_type0''])]
      else [])"

definition envD :: "Element list env" where
  "envD = toyEnv setsFlag opensD"

text \<open>A page that shows a lost game.\<close>

definition pageOver :: "Element list" where
  "pageOver =
     [\<lparr>elemId = ''cell_0_0'', classList = [''cell'', ''hdd_opened'', ''hdd_type1'']\<rparr>,
      \<lparr>elemId = ''cell_1_0'', classList = [''cell'', ''hdd_opened'', ''hdd_type11'']\<rparr>,
      \<lparr>elemId = ''cell_0_1'', classList = [''cell'', ''hdd_closed'']\<rparr>,
      \<lparr>elemId = ''cell_1_1'', classList = [''cell'', ''hdd_opened'', ''hdd_type10'']\<rparr>]"

text \<open>Scenario A of the specification: a 3 x 3 board, the centre revealed with value 0,
  the eight cells around it neither revealed nor flagged; the positions of those eight; and
  a page that shows this board.\<close>

definition zeroCell :: Cell where
  "zeroCell = \<lparr>revealed = True, flagged = False, cvalue = Some (Num 0)\<rparr>"

definition scenarioA :: BoardState where
  "scenarioA =
     \<lparr>board = [[emptyCell, emptyCell, emptyCell],
               [emptyCell, zeroCell, emptyCell],
               [emptyCell, emptyCell, emptyCell]],
      width = 3, height = 3, gameOver = False\<rparr>"

definition ringA :: "(int \<times> int) list" where
  "ringA = [(0, 0), (0, 1), (0, 2), (1, 0), (1, 2), (2, 0), (2, 1), (2, 2)]"

definition pageE :: "Element list" where
  "pageE =
     [\<lparr>elemId = ''cell_0_0'', classList = [''cell'', ''hdd_closed'']\<rparr>,
      \<lparr>elemId = ''cell_1_0'', classList = [''cell'', ''hdd_closed'']\<rparr>,
      \<lparr>elemId = ''cell_2_0'', classList = [''cell'', ''hdd_closed'']\<rparr>,
      \<lparr>elemId = ''cell_0_1'', classList = [''cell'', ''hdd_closed'']\<rparr>,
      \<lparr>elemId = ''cell_1_1'', classList = [''cell'', ''hdd_opened'', ''hdd_type0'']\<rparr>,
      \<lparr>elemId = ''cell_2_1'', classList = [''cell'', ''hdd_closed'']\<rparr>,
      \<lparr>elemId = ''cell_0_2'', classList = [''cell'', ''hdd_closed'']\<rparr>,
      \<lparr>elemId = ''cell_1_2'', classList = [''cell'', ''hdd_closed'']\<rparr>,
      \<lparr>elemId = ''cell_2_2'', classList = [''cell'', ''hdd_closed'']\<rparr>]"

text \<open>A page that no click changes: the world has a single state, which shows
  \<open>pageB\<close>.\<close>

definition stuckEnv :: "unit env" where
  "stuckEnv =
     \<lparr>parseInt = parseIntDec,
      gameElements = (\<lambda>w. Inr (Some pageB)),
      delay = (\<lambda>ms w. w),
      clickCell = (\<lambda>w row col isRightClick. (None, w)),
      randomIndex = (\<lambda>w n. (0, w))\<rparr>"

text \<open>The world of \<open>envOpens\<close> with a browser that rejects every click, and with the
  random index 7.\<close>

definition envRejects :: "Element list env" where
  "envRejects = envOpens\<lparr>clickCell := (\<lambda>w row col isRightClick. (Some BrowserError, w))\<rparr>"

definition envSeven :: "Element list env" where
  "envSeven = envOpens\<lparr>randomIndex := (\<lambda>w n. (7, w))\<rparr>"


section \<open>The neighbours of a cell\<close>

lemma neighborsOf_alt:
  "neighborsOf w h row col = filter (\<lambda>(r, c). inBounds w h r c)
     [(row - 1, col - 1), (row - 1, col), (row - 1, col + 1), (row, col - 1), (row, col + 1),
      (row + 1, col - 1), (row + 1, col), (row + 1, col + 1)]"
  unfolding neighborsOf_def inBounds_def by simp

lemma neighborsOf_distinct: "distinct (neighborsOf w h row col)"
  unfolding neighborsOf_alt by (rule distinct_filter) simp

lemma neighborsOf_length_le: "length (neighborsOf w h row col) \<le> 8"
  unfolding neighborsOf_alt by (rule order_trans [OF length_filter_le]) simp

lemma abs_diff_le_1: "\<bar>a - b\<bar> \<le> 1 \<longleftrightarrow> a = b - 1 \<or> a = b \<or> a = b + 1" for a b :: int
  by arith

lemma mem_offsets:
  "(r, c) \<in> set [(row - 1, col - 1), (row - 1, col), (row - 1, col + 1), (row, col - 1),
      (row, col + 1), (row + 1, col - 1), (row + 1, col), (row + 1, col + 1)] \<longleftrightarrow>
   (r = row - 1 \<or> r = row \<or> r = row + 1) \<and> (c = col - 1 \<or> c = col \<or> c = col + 1) \<and>
   (r, c) \<noteq> (row, col)"
  for r c row col :: int
  by (simp only: set_simps insert_iff empty_iff prod.inject) (safe; simp)

lemma neighborsOf_set:
  "set (neighborsOf w h row col) = {p. inBounds w h (fst p) (snd p) \<and> adjacent p (row, col)}"
proof -
  have "p \<in> set (neighborsOf w h row col) \<longleftrightarrow>
        inBounds w h (fst p) (snd p) \<and> adjacent p (row, col)" for p
  proof (cases p)
    case (Pair r c)
    show ?thesis
      unfolding Pair neighborsOf_alt set_filter mem_Collect_eq mem_offsets adjacent_def
        abs_diff_le_1
      by simp blast
  qed
  then show ?thesis by blast
qed

lemma neighborsOf_inBounds:
  "(nr, nc) \<in> set (neighborsOf w h row col) \<Longrightarrow> inBounds w h nr nc"
  by (simp add: neighborsOf_set)

lemma neighborsOf_corner:
  assumes "2 \<le> w" "2 \<le> h" "isCorner w h row col"
  shows "length (neighborsOf w h row col) = 3"
  using assms unfolding isCorner_def neighborsOf_alt inBounds_def
  by (elim conjE disjE) simp_all

lemma neighborsOf_edge:
  assumes "2 \<le> w" "2 \<le> h" "inBounds w h row col" "isEdge w h row col"
  shows "length (neighborsOf w h row col) = 5"
proof -
  consider "row = 0" "0 < col" "col < w - 1" | "row = h - 1" "0 < col" "col < w - 1"
    | "col = 0" "0 < row" "row < h - 1" | "col = w - 1" "0 < row" "row < h - 1"
    using assms(3,4) unfolding isEdge_def inBounds_def by arith
  then show ?thesis
    using assms(1,2) unfolding neighborsOf_alt inBounds_def
    by cases simp_all
qed

lemma neighborsOf_interior:
  "isInterior w h row col \<Longrightarrow> length (neighborsOf w h row col) = 8"
  unfolding isInterior_def neighborsOf_alt inBounds_def by simp

text \<open>
  C4, as amended. The loops over \<open>dr\<close> and \<open>dc\<close> enumerate exactly the positions of the
  board that are adjacent to \<open>(row, col)\<close> (horizontally, vertically or diagonally), each
  once, so at most 8; on a board with at least two rows and two columns a cell in a
  corner has 3 of them and a cell on an edge that is not a corner has 5.
\<close>

theorem neighborsOf_clipped:
  "set (neighborsOf w h row col) = {p. inBounds w h (fst p) (snd p) \<and> adjacent p (row, col)} \<and>
   distinct (neighborsOf w h row col) \<and>
   length (neighborsOf w h row col) \<le> 8 \<and>
   (2 \<le> w \<and> 2 \<le> h \<and> inBounds w h row col \<and> isEdge w h row col \<longrightarrow>
      length (neighborsOf w h row col) = 5) \<and>
   (2 \<le> w \<and> 2 \<le> h \<and> inBounds w h row col \<and> isCorner w h row col \<longrightarrow>
      length (neighborsOf w h row col) = 3)"
  by (simp add: neighborsOf_set neighborsOf_distinct neighborsOf_length_le neighborsOf_edge
      neighborsOf_corner)

theorem neighborsOf_clipped_witness:
  "inBounds 3 3 0 1 \<and> isEdge 3 3 0 1 \<and> length (neighborsOf 3 3 0 1) = 5 \<and>
   inBounds 3 3 2 2 \<and> isCorner 3 3 2 2 \<and> length (neighborsOf 3 3 2 2) = 3 \<and>
   set (neighborsOf 3 3 2 2) = {p. inBounds 3 3 (fst p) (snd p) \<and> adjacent p (2, 2)}"
  using neighborsOf_clipped [of 3 3 0 1] neighborsOf_clipped [of 3 3 2 2]
  by (simp add: inBounds_def isEdge_def isCorner_def)

text \<open>
  C4 as stated gives a cell on an edge 4 neighbours. On the 3 x 3 board the cell in the
  middle of the top row is on an edge and has 5.
\<close>

theorem neighborsOf_edge_counterexample:
  "inBounds 3 3 0 1 \<and> isEdge 3 3 0 1 \<and> \<not> isCorner 3 3 0 1 \<and>
   neighborsOf 3 3 0 1 = [(0, 0), (0, 2), (1, 0), (1, 1), (1, 2)] \<and>
   length (neighborsOf 3 3 0 1) \<noteq> 4"
  by (simp add: inBounds_def isEdge_def isCorner_def neighborsOf_def)

text \<open>
  C5, as amended. On every board with at least two rows and two columns, a cell in a
  corner has exactly 3 neighbours, a cell on an edge that is not a corner exactly 5, and
  an interior cell exactly 8.
\<close>

theorem neighbor_count_invariant:
  assumes "2 \<le> w" and "2 \<le> h" and "inBounds w h row col"
  shows "(isCorner w h row col \<longrightarrow> length (neighborsOf w h row col) = 3) \<and>
         (isEdge w h row col \<longrightarrow> length (neighborsOf w h row col) = 5) \<and>
         (isInterior w h row col \<longrightarrow> length (neighborsOf w h row col) = 8)"
  using assms by (simp add: neighborsOf_corner neighborsOf_edge neighborsOf_interior)

theorem neighbor_count_invariant_witness:
  "inBounds 9 9 0 8 \<and> isCorner 9 9 0 8 \<and> length (neighborsOf 9 9 0 8) = 3 \<and>
   inBounds 9 9 4 0 \<and> isEdge 9 9 4 0 \<and> length (neighborsOf 9 9 4 0) = 5 \<and>
   inBounds 9 9 4 5 \<and> isInterior 9 9 4 5 \<and> length (neighborsOf 9 9 4 5) = 8"
  using neighbor_count_invariant [of 9 9 0 8] neighbor_count_invariant [of 9 9 4 0]
    neighbor_count_invariant [of 9 9 4 5]
  by (simp add: inBounds_def isCorner_def isEdge_def isInterior_def)

text \<open>
  C5 as stated speaks of all boards. On the board of a single cell that cell is in a
  corner and has no neighbour; on a board of one row and three columns the middle cell is
  on an edge, not in a corner, and has 2.
\<close>

theorem neighbor_count_counterexample:
  "inBounds 1 1 0 0 \<and> isCorner 1 1 0 0 \<and> neighborsOf 1 1 0 0 = [] \<and>
   length (neighborsOf 1 1 0 0) \<noteq> 3 \<and>
   inBounds 3 1 0 1 \<and> isEdge 3 1 0 1 \<and> \<not> isCorner 3 1 0 1 \<and>
   neighborsOf 3 1 0 1 = [(0, 0), (0, 2)] \<and> length (neighborsOf 3 1 0 1) \<noteq> 5"
  by (simp add: inBounds_def isEdge_def isCorner_def neighborsOf_def)

section \<open>The boards of snapshots\<close>



lemma setCell_length [simp]: "length (setCell b row col c) = length b"
  by (simp add: setCell_def)

lemma setCell_row_lengths [simp]: "map length (setCell b row col c) = map length b"
  by (cases "nat row < length b")
    (simp_all add: setCell_def list_eq_iff_nth_eq nth_list_update list_update_beyond)



lemma populate_shape:
  "populate p cells (b, over) = Inr (b', over') \<Longrightarrow> map length b' = map length b"
proof (induction cells arbitrary: b over)
  case Nil
  then show ?case by simp
next
  case (Cons cell cells)
  show ?case
  proof (cases "prefix ''cell_'' (elemId cell)")
    case False
    with Cons show ?thesis by simp
  next
    case True
    with Cons.prems obtain col row where
      m: "matchCellId (elemId cell) = Some (col, row)"
      by (auto split: option.splits)
    obtain cs mine where rc: "readCell p (classList cell) = (cs, mine)"
      by (cases "readCell p (classList cell)")
    from Cons.prems True m rc
    have rec: "populate p cells (setCell b row col cs, over \<or> mine) = Inr (b', over')" by simp
    from Cons.IH [OF rec] show ?thesis by simp
  qed
qed






lemma fold_max_ge: "a \<le> fold max ys a \<and> (\<forall>x \<in> set ys. x \<le> fold max ys a)" for a :: int
proof (induction ys arbitrary: a)
  case Nil
  then show ?case by simp
next
  case (Cons y ys)
  from Cons.IH [of "max y a"] show ?case by auto
qed

lemma maxList_ge: "x \<in> set xs \<Longrightarrow> x \<le> maxList xs"
  using fold_max_ge by (cases xs) auto

lemma matchCellId_nonneg: "matchCellId s = Some (col, row) \<Longrightarrow> 0 \<le> col \<and> 0 \<le> row"
proof (induction s)
  case Nil
  then show ?case by simp
next
  case (Cons ch s)
  show ?case
  proof (cases "matchHere (ch # s)")
    case None
    with Cons show ?thesis by simp
  next
    case (Some r)
    with Cons.prems have "matchHere (ch # s) = Some (col, row)" by simp
    then show ?thesis
      by (auto simp: matchHere_def Let_def toNumber_def split: if_splits list.splits)
  qed
qed

lemma parseCoords_nonneg: "parseCoords ident = Inr (row, col) \<Longrightarrow> 0 \<le> row \<and> 0 \<le> col"
  using matchCellId_nonneg [of ident]
  by (auto simp: parseCoords_def split: option.splits)

lemma mapE_set: "mapE f xs = Inr ys \<Longrightarrow> y \<in> set ys \<Longrightarrow> \<exists>x \<in> set xs. f x = Inr y"
  by (induction xs arbitrary: ys) (auto split: sum.splits)

lemma coords_in_range:
  assumes "mapE parseCoords ids = Inr coords" and "(row, col) \<in> set coords"
  shows "0 \<le> row \<and> row < maxList (map fst coords) + 1 \<and>
         0 \<le> col \<and> col < maxList (map snd coords) + 1"
proof -
  from mapE_set [OF assms] obtain ident where "parseCoords ident = Inr (row, col)" by blast
  from parseCoords_nonneg [OF this] have "0 \<le> row" "0 \<le> col" by simp_all
  moreover from assms(2) have "row \<in> set (map fst coords)" "col \<in> set (map snd coords)"
    by force+
  then have "row \<le> maxList (map fst coords)" "col \<le> maxList (map snd coords)"
    by (simp_all only: maxList_ge)
  ultimately show ?thesis by simp
qed

lemma readBoard_wellFormed:
  assumes "readBoard p game = Inr bs"
  shows "wellFormed bs"
proof -
  from assms obtain elems coords b over where
    coords: "mapE parseCoords (filter (prefix ''cell_'')
               (map elemId (filter (\<lambda>e. prefix ''cell_'' (elemId e)) elems))) = Inr coords"
    and ne: "coords \<noteq> []"
    and pop: "populate p (filter (\<lambda>e. prefix ''cell_'' (elemId e)) elems)
            (replicate (nat (maxList (map fst coords) + 1))
               (replicate (nat (maxList (map snd coords) + 1)) emptyCell), False) = Inr (b, over)"
    and bs: "bs = \<lparr>board = b, width = maxList (map snd coords) + 1,
               height = maxList (map fst coords) + 1, gameOver = over\<rparr>"
    by (auto simp: readBoard_def Let_def split: option.splits sum.splits if_splits)
  from ne obtain row col where rc: "(row, col) \<in> set coords"
    by (cases coords) auto
  from coords_in_range [OF coords rc]
  have h: "0 < maxList (map fst coords) + 1" and w: "0 < maxList (map snd coords) + 1"
    by simp_all
  from populate_shape [OF pop]
  have shape: "map length b = replicate (nat (maxList (map fst coords) + 1))
                 (nat (maxList (map snd coords) + 1))"
    by simp
  then have "length (map length b) = nat (maxList (map fst coords) + 1)" by simp
  then have len: "length b = nat (maxList (map fst coords) + 1)" by simp
  have "length r = nat (maxList (map snd coords) + 1)" if "r \<in> set b" for r
  proof -
    from that have "length r \<in> set (map length b)" by simp
    with shape show ?thesis by simp
  qed
  with h w len show ?thesis by (simp add: wellFormed_def bs)
qed

section \<open>The board that reaches the caller\<close>

lemma byValue_fields [simp]:
  "width (byValue bs) = width bs" "height (byValue bs) = height bs"
  "gameOver (byValue bs) = gameOver bs" "board (byValue bs) = map (map byValueCell) (board bs)"
  by (simp_all add: byValue_def)

lemma byValue_wellFormed: "wellFormed bs \<Longrightarrow> wellFormed (byValue bs)"
  by (auto simp: wellFormed_def)

lemma byValueCell_fields [simp]:
  "revealed (byValueCell c) = revealed c" "flagged (byValueCell c) = flagged c"
  "cvalue (byValueCell c) = (if cvalue c = Some NaN then None else cvalue c)"
  by (simp_all add: byValueCell_def)

lemma getBoardState_cases:
  assumes "fst (getBoardState env w) = Inr bs"
  obtains game raw where "gameElements env (delay env 1000 w) = Inr game"
    and "readBoard (parseInt env) game = Inr raw" and "bs = byValue raw"
  using assms by (auto simp: getBoardState_def Let_def split: sum.splits)

lemma getBoardState_wellFormed:
  assumes "fst (getBoardState env w) = Inr bs"
  shows "wellFormed bs"
proof -
  from assms obtain game raw where "readBoard (parseInt env) game = Inr raw" "bs = byValue raw"
    by (rule getBoardState_cases)
  then show ?thesis by (simp add: readBoard_wellFormed byValue_wellFormed)
qed

lemma getBoardState_world [simp]: "snd (getBoardState env w) = delay env 1000 w"
  by (simp add: getBoardState_def Let_def)




section \<open>Clicks and the log\<close>

lemma clickAndRefresh_cases:
  assumes "clickAndRefresh env nr nc isRightClick st = (sig, st')"
  obtains
    (rejected) e w1 where "clickCell env (world st) nr nc isRightClick = (Some e, w1)"
      and "sig = Throw e"
      and "st' = st\<lparr>world := w1,
             trace := trace st @ [((nr, nc, if isRightClick then Flag else Reveal), Inl e)]\<rparr>"
  | (unread) w1 e w2 where "clickCell env (world st) nr nc isRightClick = (None, w1)"
      and "getBoardState env w1 = (Inl e, w2)" and "sig = Throw e"
      and "st' = st\<lparr>world := w2,
             trace := trace st @ [((nr, nc, if isRightClick then Flag else Reveal), Inl e)]\<rparr>"
  | (over) w1 bs w2 where "clickCell env (world st) nr nc isRightClick = (None, w1)"
      and "getBoardState env w1 = (Inr bs, w2)" and "gameOver bs" and "sig = Return False"
      and "st' = st\<lparr>world := w2,
             trace := trace st @ [((nr, nc, if isRightClick then Flag else Reveal), Inr bs)],
             board := board bs, width := width bs, height := height bs, gameOver := True\<rparr>"
  | (goesOn) w1 bs w2 where "clickCell env (world st) nr nc isRightClick = (None, w1)"
      and "getBoardState env w1 = (Inr bs, w2)" and "\<not> gameOver bs" and "sig = Continue"
      and "st' = st\<lparr>world := w2,
             trace := trace st @ [((nr, nc, if isRightClick then Flag else Reveal), Inr bs)],
             board := board bs, width := width bs, height := height bs, gameOver := False,
             actionTaken := True\<rparr>"
proof -
  obtain r w1 where c: "clickCell env (world st) nr nc isRightClick = (r, w1)"
    by (cases "clickCell env (world st) nr nc isRightClick")
  show ?thesis
  proof (cases r)
    case (Some e)
    with assms c have "sig = Throw e"
      "st' = st\<lparr>world := w1,
             trace := trace st @ [((nr, nc, if isRightClick then Flag else Reveal), Inl e)]\<rparr>"
      by (simp_all add: clickAndRefresh_def)
    with c Some show ?thesis by (auto intro: rejected)
  next
    case None
    obtain snap w2 where g: "getBoardState env w1 = (snap, w2)"
      by (cases "getBoardState env w1")
    show ?thesis
    proof (cases snap)
      case (Inl e)
      with assms c None g have "sig = Throw e"
        "st' = st\<lparr>world := w2,
               trace := trace st @ [((nr, nc, if isRightClick then Flag else Reveal), Inl e)]\<rparr>"
        by (simp_all add: clickAndRefresh_def)
      with c None g Inl show ?thesis by (auto intro: unread)
    next
      case (Inr bs)
      show ?thesis
      proof (cases "gameOver bs")
        case True
        with assms c None g Inr have "sig = Return False"
          "st' = st\<lparr>world := w2,
             trace := trace st @ [((nr, nc, if isRightClick then Flag else Reveal), Inr bs)],
             board := board bs, width := width bs, height := height bs, gameOver := True\<rparr>"
          by (simp_all add: clickAndRefresh_def)
        with c None g Inr True show ?thesis by (auto intro: over)
      next
        case False
        with assms c None g Inr have "sig = Continue"
          "st' = st\<lparr>world := w2,
             trace := trace st @ [((nr, nc, if isRightClick then Flag else Reveal), Inr bs)],
             board := board bs, width := width bs, height := height bs, gameOver := False,
             actionTaken := True\<rparr>"
          by (simp_all add: clickAndRefresh_def)
        with c None g Inr False show ?thesis by (auto intro: goesOn)
      qed
    qed
  qed
qed

lemma clickAndRefresh_result:
  assumes "clickAndRefresh env nr nc isRightClick st = (sig, st')"
  shows "\<exists>snap. trace st' = trace st @ [((nr, nc, if isRightClick then Flag else Reveal), snap)] \<and>
           (case snap of
              Inl e \<Rightarrow> sig = Throw e \<and> board st' = board st \<and> width st' = width st \<and>
                       height st' = height st \<and> actionTaken st' = actionTaken st
            | Inr bs \<Rightarrow> board st' = board bs \<and> width st' = width bs \<and> height st' = height bs \<and>
                       wellFormed bs \<and>
                       (if gameOver bs then sig = Return False \<and> actionTaken st' = actionTaken st
                        else sig = Continue \<and> actionTaken st'))"
  using assms
proof (cases rule: clickAndRefresh_cases)
  case (rejected e w1)
  then show ?thesis by simp
next
  case (unread w1 e w2)
  then show ?thesis by simp
next
  case (over w1 bs w2)
  from over(2) have "wellFormed bs" using getBoardState_wellFormed [of env w1 bs] by simp
  with over show ?thesis by simp
next
  case (goesOn w1 bs w2)
  from goesOn(2) have "wellFormed bs" using getBoardState_wellFormed [of env w1 bs] by simp
  with goesOn show ?thesis by simp
qed

text \<open>The entry that a click adds to the log is what the world gave.\<close>

lemma clickAndRefresh_genuine:
  assumes "clickAndRefresh env nr nc isRightClick st = (sig, st')"
  shows "\<exists>snap. trace st' = trace st @ [((nr, nc, if isRightClick then Flag else Reveal), snap)] \<and>
           genuine env (world st) [((nr, nc, if isRightClick then Flag else Reveal), snap)]
             (world st') \<and>
           (sig = Continue \<longrightarrow> quiet [((nr, nc, if isRightClick then Flag else Reveal), snap)])"
  using assms
proof (cases rule: clickAndRefresh_cases)
  case (rejected e w1)
  then show ?thesis by (cases isRightClick) simp_all
next
  case (unread w1 e w2)
  then show ?thesis by (cases isRightClick) simp_all
next
  case (over w1 bs w2)
  then show ?thesis by (cases isRightClick) simp_all
next
  case (goesOn w1 bs w2)
  then show ?thesis by (cases isRightClick) (simp_all add: quiet_def)
qed

lemma quiet_append [simp]: "quiet (xs @ ys) \<longleftrightarrow> quiet xs \<and> quiet ys"
  by (simp add: quiet_def)

lemma quiet_Nil [simp]: "quiet []"
  by (simp add: quiet_def)

lemma quiet_single [simp]:
  "quiet [(a, snap)] \<longleftrightarrow> (case snap of Inr bs \<Rightarrow> \<not> gameOver bs | Inl e \<Rightarrow> False)"
  by (simp add: quiet_def)

lemma genuine_append:
  "genuine env w a w1 \<Longrightarrow> quiet a \<Longrightarrow> genuine env w1 b w2 \<Longrightarrow> genuine env w (a @ b) w2"
proof (induction a arbitrary: w)
  case Nil
  then show ?case by simp
next
  case (Cons x a)
  obtain row col k snap where x: "x = ((row, col, k), snap)" by (cases x) auto
  from Cons.prems(2) x obtain bs where snap: "snap = Inr bs" and qa: "quiet a"
    by (cases snap) (auto simp: quiet_def)
  obtain r wc where c: "clickCell env w row col (k = Flag) = (r, wc)"
    by (cases "clickCell env w row col (k = Flag)")
  obtain s ws where g: "getBoardState env wc = (s, ws)"
    by (cases "getBoardState env wc")
  from Cons.prems(1) x snap c have r: "r = None" by (cases r) auto
  with Cons.prems(1) x c g have s: "snap = s" and rest: "genuine env ws a w1" by auto
  from Cons.IH [OF rest qa Cons.prems(3)] have "genuine env ws (a @ b) w2" .
  with x c r g s show ?case by simp
qed

lemma interrupted_single:
  "interrupted sig [(a, snap)] \<longleftrightarrow>
     (case snap of Inr bs \<Rightarrow> gameOver bs \<and> sig = Return False | Inl e \<Rightarrow> sig = Throw e)"
  by (simp add: interrupted_def)

lemma interrupted_Cons: "interrupted sig new \<Longrightarrow> interrupted sig (x # new)"
  by (auto simp: interrupted_def)

lemma flagLoop_trace:
  "flagLoop env ns st = (sig, st') \<Longrightarrow>
   \<exists>new ps. trace st' = trace st @ new \<and> subseq ps ns \<and> map fst new = map flagAction ps \<and>
     (new = [] \<longrightarrow> st' = st) \<and>
     (sig = Continue \<longrightarrow>
        (\<forall>p \<in> set ns. flagAction p \<in> set (map fst new) \<or> flaggedAt (board st) p \<or>
           (\<exists>a bs. (a, Inr bs) \<in> set new \<and> flaggedAt (board bs) p))) \<and>
     (sig \<noteq> Continue \<longrightarrow>
        interrupted sig new \<or>
        (sig = Throw TypeError \<and> (\<exists>p \<in> set ns. cellAt (board st') (fst p) (snd p) = None)))"
proof (induction ns arbitrary: st)
  case Nil
  then show ?case by auto
next
  case (Cons p rest)
  obtain nr nc where p: "p = (nr, nc)" by (cases p)
  show ?case
  proof (cases "cellAt (board st) nr nc")
    case None
    with Cons.prems p have "sig = Throw TypeError" "st' = st" by auto
    with None p show ?thesis by auto
  next
    case (Some c)
    show ?thesis
    proof (cases "flagged c")
      case True
      with Cons.prems p Some have "flagLoop env rest st = (sig, st')" by simp
      from Cons.IH [OF this] obtain new ps where
        t: "trace st' = trace st @ new" and s: "subseq ps rest" and
        m: "map fst new = map flagAction ps" and e: "new = [] \<longrightarrow> st' = st" and
        c: "sig = Continue \<longrightarrow>
             (\<forall>q \<in> set rest. flagAction q \<in> set (map fst new) \<or> flaggedAt (board st) q \<or>
               (\<exists>a bs. (a, Inr bs) \<in> set new \<and> flaggedAt (board bs) q))" and
        i: "sig \<noteq> Continue \<longrightarrow> interrupted sig new \<or>
             (sig = Throw TypeError \<and> (\<exists>q \<in> set rest. cellAt (board st') (fst q) (snd q) = None))"
        by blast
      from Some True p have fp: "flaggedAt (board st) p" by (simp add: flaggedAt_def)
      from s have s': "subseq ps (p # rest)" by (rule list_emb_Cons)
      from c fp have c': "sig = Continue \<longrightarrow>
             (\<forall>q \<in> set (p # rest). flagAction q \<in> set (map fst new) \<or> flaggedAt (board st) q \<or>
               (\<exists>a bs. (a, Inr bs) \<in> set new \<and> flaggedAt (board bs) q))"
        by simp
      from i have i': "sig \<noteq> Continue \<longrightarrow> interrupted sig new \<or>
             (sig = Throw TypeError \<and>
              (\<exists>q \<in> set (p # rest). cellAt (board st') (fst q) (snd q) = None))"
        by auto
      from t s' m e c' i' show ?thesis by blast
    next
      case False
      obtain sig1 st1 where click: "clickAndRefresh env nr nc True st = (sig1, st1)"
        by (cases "clickAndRefresh env nr nc True st")
      from clickAndRefresh_result [OF click] obtain snap where
        t0: "trace st1 = trace st @ [((nr, nc, Flag), snap)]" and
        r0: "case snap of
               Inl e \<Rightarrow> sig1 = Throw e \<and> board st1 = board st \<and> width st1 = width st \<and>
                        height st1 = height st \<and> actionTaken st1 = actionTaken st
             | Inr bs \<Rightarrow> board st1 = board bs \<and> width st1 = width bs \<and>
                        height st1 = height bs \<and> wellFormed bs \<and>
                        (if gameOver bs then sig1 = Return False \<and> actionTaken st1 = actionTaken st
                         else sig1 = Continue \<and> actionTaken st1)"
        by auto
      from t0 have t1: "trace st1 = trace st @ [(flagAction p, snap)]"
        by (simp add: flagAction_def p)
      from r0 have r1: "case snap of
               Inl e \<Rightarrow> sig1 = Throw e
             | Inr bs \<Rightarrow> board st1 = board bs \<and>
                 (if gameOver bs then sig1 = Return False else sig1 = Continue)"
        by (cases snap) (auto split: if_splits)
      show ?thesis
      proof (cases "sig1 = Continue")
        case True
        with Cons.prems p Some False click have "flagLoop env rest st1 = (sig, st')" by simp
        from Cons.IH [OF this] obtain new ps where
          t: "trace st' = trace st1 @ new" and s: "subseq ps rest" and
          m: "map fst new = map flagAction ps" and
          c: "sig = Continue \<longrightarrow>
               (\<forall>q \<in> set rest. flagAction q \<in> set (map fst new) \<or> flaggedAt (board st1) q \<or>
                 (\<exists>a bs. (a, Inr bs) \<in> set new \<and> flaggedAt (board bs) q))" and
          i: "sig \<noteq> Continue \<longrightarrow> interrupted sig new \<or>
               (sig = Throw TypeError \<and>
                (\<exists>q \<in> set rest. cellAt (board st') (fst q) (snd q) = None))"
          by blast
        from True r1 obtain bs where snap: "snap = Inr bs" and b1: "board st1 = board bs"
          by (cases snap) auto
        let ?new = "(flagAction p, snap) # new"
        from t t1 have t': "trace st' = trace st @ ?new" by simp
        from s have s': "subseq (p # ps) (p # rest)" by simp
        from m have m': "map fst ?new = map flagAction (p # ps)" by simp
        have c': "sig = Continue \<longrightarrow>
               (\<forall>q \<in> set (p # rest). flagAction q \<in> set (map fst ?new) \<or> flaggedAt (board st) q \<or>
                 (\<exists>a bs. (a, Inr bs) \<in> set ?new \<and> flaggedAt (board bs) q))"
        proof (intro impI ballI)
          fix q
          assume sc: "sig = Continue" and q: "q \<in> set (p # rest)"
          show "flagAction q \<in> set (map fst ?new) \<or> flaggedAt (board st) q \<or>
                 (\<exists>a bs. (a, Inr bs) \<in> set ?new \<and> flaggedAt (board bs) q)"
          proof (cases "q = p")
            case True
            then show ?thesis by simp
          next
            case False
            with q have "q \<in> set rest" by simp
            with c sc have "flagAction q \<in> set (map fst new) \<or> flaggedAt (board st1) q \<or>
                 (\<exists>a bs. (a, Inr bs) \<in> set new \<and> flaggedAt (board bs) q)"
              by blast
            then show ?thesis
            proof (elim disjE)
              assume "flagAction q \<in> set (map fst new)"
              then show ?thesis by simp
            next
              assume "flaggedAt (board st1) q"
              with b1 snap have "(flagAction p, Inr bs) \<in> set ?new \<and> flaggedAt (board bs) q"
                by simp
              then show ?thesis by blast
            next
              assume "\<exists>a bs. (a, Inr bs) \<in> set new \<and> flaggedAt (board bs) q"
              then obtain a bs' where "(a, Inr bs') \<in> set new" "flaggedAt (board bs') q"
                by blast
              then have "(a, Inr bs') \<in> set ?new \<and> flaggedAt (board bs') q" by simp
              then show ?thesis by blast
            qed
          qed
        qed
        from i have i': "sig \<noteq> Continue \<longrightarrow> interrupted sig ?new \<or>
               (sig = Throw TypeError \<and>
                (\<exists>q \<in> set (p # rest). cellAt (board st') (fst q) (snd q) = None))"
          using interrupted_Cons [of sig new "(flagAction p, snap)"] by auto
        have e': "?new = [] \<longrightarrow> st' = st" by simp
        from t' s' m' e' c' i' show ?thesis by blast
      next
        case stop: False
        with Cons.prems p Some False click have res: "sig = sig1" "st' = st1"
          by (cases sig1; simp)+
        let ?new = "[(flagAction p, snap)]"
        from res t1 have t': "trace st' = trace st @ ?new" by simp
        have s': "subseq [p] (p # rest)" by simp
        have m': "map fst ?new = map flagAction [p]" by simp
        from stop r1 res have i': "interrupted sig ?new"
          by (auto simp: interrupted_single split: sum.splits if_splits)
        from stop res have nc: "sig \<noteq> Continue" by simp
        have e': "?new = [] \<longrightarrow> st' = st" by simp
        from t' s' m' e' i' nc show ?thesis by blast
      qed
    qed
  qed
qed

lemma revealLoop_trace:
  "revealLoop env ns st = (sig, st') \<Longrightarrow>
   \<exists>new k. trace st' = trace st @ new \<and> k \<le> length ns \<and>
     map fst new = map revealAction (take k ns) \<and>
     (sig = Continue \<longrightarrow> k = length ns) \<and>
     (sig \<noteq> Continue \<longrightarrow> interrupted sig new)"
proof (induction ns arbitrary: st)
  case Nil
  then show ?case by auto
next
  case (Cons p rest)
  obtain nr nc where p: "p = (nr, nc)" by (cases p)
  obtain sig1 st1 where click: "clickAndRefresh env nr nc False st = (sig1, st1)"
    by (cases "clickAndRefresh env nr nc False st")
  from clickAndRefresh_result [OF click] obtain snap where
    t0: "trace st1 = trace st @ [((nr, nc, Reveal), snap)]" and
    r0: "case snap of
           Inl e \<Rightarrow> sig1 = Throw e \<and> board st1 = board st \<and> width st1 = width st \<and>
                    height st1 = height st \<and> actionTaken st1 = actionTaken st
         | Inr bs \<Rightarrow> board st1 = board bs \<and> width st1 = width bs \<and>
                    height st1 = height bs \<and> wellFormed bs \<and>
                    (if gameOver bs then sig1 = Return False \<and> actionTaken st1 = actionTaken st
                     else sig1 = Continue \<and> actionTaken st1)"
    by auto
  from t0 have t1: "trace st1 = trace st @ [(revealAction p, snap)]"
    by (simp add: revealAction_def p)
  from r0 have r1: "case snap of
           Inl e \<Rightarrow> sig1 = Throw e
         | Inr bs \<Rightarrow> (if gameOver bs then sig1 = Return False else sig1 = Continue)"
    by (cases snap) (auto split: if_splits)
  show ?case
  proof (cases "sig1 = Continue")
    case True
    with Cons.prems p click have "revealLoop env rest st1 = (sig, st')" by simp
    from Cons.IH [OF this] obtain new k where
      t: "trace st' = trace st1 @ new" and k: "k \<le> length rest" and
      m: "map fst new = map revealAction (take k rest)" and
      c: "sig = Continue \<longrightarrow> k = length rest" and
      i: "sig \<noteq> Continue \<longrightarrow> interrupted sig new"
      by blast
    let ?new = "(revealAction p, snap) # new"
    from t t1 have t': "trace st' = trace st @ ?new" by simp
    from k have k': "Suc k \<le> length (p # rest)" by simp
    from m have m': "map fst ?new = map revealAction (take (Suc k) (p # rest))" by simp
    from c have c': "sig = Continue \<longrightarrow> Suc k = length (p # rest)" by simp
    from i have i': "sig \<noteq> Continue \<longrightarrow> interrupted sig ?new"
      using interrupted_Cons [of sig new "(revealAction p, snap)"] by auto
    from t' k' m' c' i' show ?thesis by blast
  next
    case stop: False
    with Cons.prems p click have res: "sig = sig1" "st' = st1"
      by (cases sig1; simp)+
    let ?new = "[(revealAction p, snap)]"
    from res t1 have t': "trace st' = trace st @ ?new" by simp
    have k': "Suc 0 \<le> length (p # rest)" by simp
    have m': "map fst ?new = map revealAction (take (Suc 0) (p # rest))" by simp
    from stop r1 res have i': "interrupted sig ?new"
      by (auto simp: interrupted_single split: sum.splits if_splits)
    from stop res have nc: "sig \<noteq> Continue" by simp
    from t' k' m' i' nc show ?thesis by blast
  qed
qed

text \<open>The logs of the two loops are what the world gave.\<close>

lemma flagLoop_genuine:
  "flagLoop env ns st = (sig, st') \<Longrightarrow>
   \<exists>new. trace st' = trace st @ new \<and> genuine env (world st) new (world st') \<and>
     (sig = Continue \<longrightarrow> quiet new)"
proof (induction ns arbitrary: st)
  case Nil
  then show ?case by (simp add: quiet_def)
next
  case (Cons p rest)
  obtain nr nc where p: "p = (nr, nc)" by (cases p)
  show ?case
  proof (cases "cellAt (board st) nr nc")
    case None
    with Cons.prems p have "sig = Throw TypeError" "st' = st" by auto
    then show ?thesis by simp
  next
    case (Some c)
    show ?thesis
    proof (cases "flagged c")
      case True
      with Cons.prems p Some have "flagLoop env rest st = (sig, st')" by simp
      from Cons.IH [OF this] show ?thesis .
    next
      case False
      obtain sig1 st1 where click: "clickAndRefresh env nr nc True st = (sig1, st1)"
        by (cases "clickAndRefresh env nr nc True st")
      from clickAndRefresh_genuine [OF click] obtain snap where
        t0: "trace st1 = trace st @ [((nr, nc, Flag), snap)]" and
        g0: "genuine env (world st) [((nr, nc, Flag), snap)] (world st1)" and
        q0: "sig1 = Continue \<longrightarrow> quiet [((nr, nc, Flag), snap)]"
        by auto
      show ?thesis
      proof (cases "sig1 = Continue")
        case True
        with Cons.prems p Some False click have "flagLoop env rest st1 = (sig, st')" by simp
        from Cons.IH [OF this] obtain new where
          t: "trace st' = trace st1 @ new" and g: "genuine env (world st1) new (world st')" and
          q: "sig = Continue \<longrightarrow> quiet new"
          by blast
        from True q0 have q1: "quiet [((nr, nc, Flag), snap)]" by simp
        from genuine_append [OF g0 q1 g]
        have "genuine env (world st) ([((nr, nc, Flag), snap)] @ new) (world st')" .
        moreover from t t0 have "trace st' = trace st @ ([((nr, nc, Flag), snap)] @ new)" by simp
        moreover from q q1 have "sig = Continue \<longrightarrow> quiet ([((nr, nc, Flag), snap)] @ new)"
          by (simp only: quiet_append) simp
        ultimately show ?thesis by blast
      next
        case stop: False
        with Cons.prems p Some False click have res: "sig = sig1" "st' = st1"
          by (cases sig1; simp)+
        with t0 g0 q0 show ?thesis by blast
      qed
    qed
  qed
qed

lemma revealLoop_genuine:
  "revealLoop env ns st = (sig, st') \<Longrightarrow>
   \<exists>new. trace st' = trace st @ new \<and> genuine env (world st) new (world st') \<and>
     (sig = Continue \<longrightarrow> quiet new)"
proof (induction ns arbitrary: st)
  case Nil
  then show ?case by (simp add: quiet_def)
next
  case (Cons p rest)
  obtain nr nc where p: "p = (nr, nc)" by (cases p)
  obtain sig1 st1 where click: "clickAndRefresh env nr nc False st = (sig1, st1)"
    by (cases "clickAndRefresh env nr nc False st")
  from clickAndRefresh_genuine [OF click] obtain snap where
    t0: "trace st1 = trace st @ [((nr, nc, Reveal), snap)]" and
    g0: "genuine env (world st) [((nr, nc, Reveal), snap)] (world st1)" and
    q0: "sig1 = Continue \<longrightarrow> quiet [((nr, nc, Reveal), snap)]"
    by auto
  show ?case
  proof (cases "sig1 = Continue")
    case True
    with Cons.prems p click have "revealLoop env rest st1 = (sig, st')" by simp
    from Cons.IH [OF this] obtain new where
      t: "trace st' = trace st1 @ new" and g: "genuine env (world st1) new (world st')" and
      q: "sig = Continue \<longrightarrow> quiet new"
      by blast
    from True q0 have q1: "quiet [((nr, nc, Reveal), snap)]" by simp
    from genuine_append [OF g0 q1 g]
    have "genuine env (world st) ([((nr, nc, Reveal), snap)] @ new) (world st')" .
    moreover from t t0 have "trace st' = trace st @ ([((nr, nc, Reveal), snap)] @ new)" by simp
    moreover from q q1 have "sig = Continue \<longrightarrow> quiet ([((nr, nc, Reveal), snap)] @ new)"
      by (simp only: quiet_append) simp
    ultimately show ?thesis by blast
  next
    case stop: False
    with Cons.prems p click have res: "sig = sig1" "st' = st1"
      by (cases sig1; simp)+
    with t0 g0 q0 show ?thesis by blast
  qed
qed

text \<open>The logs of the two loops are those of the rules in the words of the
  specification.\<close>

lemma flagLoop_flagsInTurn:
  "flagLoop env ns st = (sig, st') \<Longrightarrow>
   \<exists>new. trace st' = trace st @ new \<and> flagsInTurn (board st) ns new sig"
proof (induction ns arbitrary: st)
  case Nil
  then show ?case by simp
next
  case (Cons p rest)
  obtain nr nc where p: "p = (nr, nc)" by (cases p)
  show ?case
  proof (cases "cellAt (board st) nr nc")
    case None
    with Cons.prems p have "sig = Throw TypeError" "st' = st" by auto
    with None p show ?thesis by simp
  next
    case (Some c)
    show ?thesis
    proof (cases "flagged c")
      case True
      with Cons.prems p Some have "flagLoop env rest st = (sig, st')" by simp
      from Cons.IH [OF this] obtain new where
        "trace st' = trace st @ new" "flagsInTurn (board st) rest new sig"
        by blast
      with Some True p show ?thesis by auto
    next
      case False
      obtain sig1 st1 where click: "clickAndRefresh env nr nc True st = (sig1, st1)"
        by (cases "clickAndRefresh env nr nc True st")
      from click show ?thesis
      proof (cases rule: clickAndRefresh_cases)
        case (rejected e w1)
        with Cons.prems p Some False click have "sig = Throw e" "st' = st1" by simp_all
        with rejected Some False p show ?thesis by (simp add: flagAction_def)
      next
        case (unread w1 e w2)
        with Cons.prems p Some False click have "sig = Throw e" "st' = st1" by simp_all
        with unread Some False p show ?thesis by (simp add: flagAction_def)
      next
        case (over w1 bs w2)
        with Cons.prems p Some False click have "sig = Return False" "st' = st1" by simp_all
        with over Some False p show ?thesis by (simp add: flagAction_def)
      next
        case (goesOn w1 bs w2)
        with Cons.prems p Some False click have "flagLoop env rest st1 = (sig, st')" by simp
        from Cons.IH [OF this] obtain new where
          t: "trace st' = trace st1 @ new" and f: "flagsInTurn (board st1) rest new sig"
          by blast
        from goesOn(5) have b1: "board st1 = board bs" and
          t1: "trace st1 = trace st @ [((nr, nc, Flag), Inr bs)]"
          by simp_all
        from t t1 have "trace st' = trace st @ (((nr, nc, Flag), Inr bs) # new)" by simp
        moreover from f b1 goesOn(3) Some False p
        have "flagsInTurn (board st) (p # rest) (((nr, nc, Flag), Inr bs) # new) sig"
          by (simp add: flagAction_def)
        ultimately show ?thesis by blast
      qed
    qed
  qed
qed

lemma revealLoop_revealsInTurn:
  "revealLoop env ns st = (sig, st') \<Longrightarrow>
   \<exists>new. trace st' = trace st @ new \<and> revealsInTurn ns new sig"
proof (induction ns arbitrary: st)
  case Nil
  then show ?case by simp
next
  case (Cons p rest)
  obtain nr nc where p: "p = (nr, nc)" by (cases p)
  obtain sig1 st1 where click: "clickAndRefresh env nr nc False st = (sig1, st1)"
    by (cases "clickAndRefresh env nr nc False st")
  from click show ?case
  proof (cases rule: clickAndRefresh_cases)
    case (rejected e w1)
    with Cons.prems p click have "sig = Throw e" "st' = st1" by simp_all
    with rejected p show ?thesis by (simp add: revealAction_def)
  next
    case (unread w1 e w2)
    with Cons.prems p click have "sig = Throw e" "st' = st1" by simp_all
    with unread p show ?thesis by (simp add: revealAction_def)
  next
    case (over w1 bs w2)
    with Cons.prems p click have "sig = Return False" "st' = st1" by simp_all
    with over p show ?thesis by (simp add: revealAction_def)
  next
    case (goesOn w1 bs w2)
    with Cons.prems p click have "revealLoop env rest st1 = (sig, st')" by simp
    from Cons.IH [OF this] obtain new where
      t: "trace st' = trace st1 @ new" and f: "revealsInTurn rest new sig"
      by blast
    from goesOn(5) have t1: "trace st1 = trace st @ [((nr, nc, Reveal), Inr bs)]" by simp
    from t t1 have "trace st' = trace st @ (((nr, nc, Reveal), Inr bs) # new)" by simp
    moreover from f goesOn(3) p
    have "revealsInTurn (p # rest) (((nr, nc, Reveal), Inr bs) # new) sig"
      by (simp add: revealAction_def)
    ultimately show ?thesis by blast
  qed
qed

text \<open>What a log of rule 2 in turn looks like: all its entries but the last are quiet.\<close>

lemma revealsInTurn_quiet:
  "revealsInTurn ns new sig \<Longrightarrow>
   quiet (butlast new) \<and> (sig = Continue \<longrightarrow> quiet new \<and> length new = length ns)"
proof (induction ns arbitrary: new)
  case Nil
  then show ?case by (simp add: quiet_def)
next
  case (Cons p rest)
  from Cons.prems obtain a snap new' where new: "new = (a, snap) # new'"
    by (cases new) auto
  show ?case
  proof (cases snap)
    case (Inl e)
    with Cons.prems new show ?thesis by (simp add: quiet_def)
  next
    case (Inr bs)
    show ?thesis
    proof (cases "gameOver bs")
      case True
      with Cons.prems new Inr show ?thesis by (simp add: quiet_def)
    next
      case False
      with Cons.prems new Inr have "revealsInTurn rest new' sig" by simp
      from Cons.IH [OF this]
      have "quiet (butlast new')" "sig = Continue \<longrightarrow> quiet new' \<and> length new' = length rest"
        by simp_all
      with new Inr False show ?thesis by (simp add: quiet_def)
    qed
  qed
qed

lemma flagsInTurn_quiet:
  "flagsInTurn b ns new sig \<Longrightarrow> quiet (butlast new) \<and> (sig = Continue \<longrightarrow> quiet new)"
proof (induction ns arbitrary: b new)
  case Nil
  then show ?case by (simp add: quiet_def)
next
  case (Cons p rest)
  show ?case
  proof (cases "cellAt b (fst p) (snd p)")
    case None
    with Cons.prems show ?thesis by (simp add: quiet_def)
  next
    case (Some c)
    show ?thesis
    proof (cases "flagged c")
      case True
      with Cons.prems Some have "flagsInTurn b rest new sig" by simp
      from Cons.IH [OF this] show ?thesis .
    next
      case False
      with Cons.prems Some obtain a snap new' where new: "new = (a, snap) # new'"
        by (cases new) auto
      show ?thesis
      proof (cases snap)
        case (Inl e)
        with Cons.prems Some False new show ?thesis by (simp add: quiet_def)
      next
        case (Inr bs)
        show ?thesis
        proof (cases "gameOver bs")
          case True
          with Cons.prems Some False new Inr show ?thesis by (simp add: quiet_def)
        next
          case over: False
          with Cons.prems Some False new Inr have "flagsInTurn (board bs) rest new' sig"
            by simp
          from Cons.IH [OF this]
          have "quiet (butlast new')" "sig = Continue \<longrightarrow> quiet new'" by simp_all
          with new Inr over show ?thesis by (simp add: quiet_def)
        qed
      qed
    qed
  qed
qed


section \<open>The counts of a cell\<close>

lemma cellAt_wellFormed:
  assumes "wellFormed st" and "inBounds (width st) (height st) r c"
  shows "\<exists>cell. cellAt (board st) r c = Some cell"
proof -
  from assms have r: "0 \<le> r" "r < int (length (board st))"
    by (simp_all add: wellFormed_def inBounds_def)
  then have "board st ! nat r \<in> set (board st)" by simp
  with assms have "int (length (board st ! nat r)) = width st"
    by (simp add: wellFormed_def)
  with assms r show ?thesis by (simp add: cellAt_def inBounds_def)
qed

lemma cellAt_neighbor:
  assumes "wellFormed st" and "p \<in> set (neighborsOf (width st) (height st) row col)"
  shows "cellAt (board st) (fst p) (snd p) \<noteq> None"
proof -
  from assms(2) have "inBounds (width st) (height st) (fst p) (snd p)"
    by (simp add: neighborsOf_set)
  from cellAt_wellFormed [OF assms(1) this] show ?thesis by auto
qed

lemma countNeighbors_spec:
  "\<forall>p \<in> set ps. cellAt b (fst p) (snd p) \<noteq> None \<Longrightarrow>
   countNeighbors b ps (u, f, ns) =
     Inr (u + int (length (filter (unopenedAt b) ps)),
          f + int (length (filter (flaggedAt b) ps)),
          ns @ filter (unopenedAt b) ps)"
proof (induction ps arbitrary: u f ns)
  case Nil
  then show ?case by simp
next
  case (Cons p ps)
  obtain nr nc where p: "p = (nr, nc)" by (cases p)
  from Cons.prems p obtain c where c: "cellAt b nr nc = Some c" by auto
  from Cons.prems have rest: "\<forall>p \<in> set ps. cellAt b (fst p) (snd p) \<noteq> None" by simp
  show ?case
    unfolding p using c Cons.IH [OF rest]
    by (simp add: unopenedAt_def flaggedAt_def)
qed

lemma solveCell_numbered:
  assumes "wellFormed st" and "cellAt (board st) row col = Some c" and "revealed c"
    and "cvalue c = Some (Num v)" and "v \<noteq> 0" and "v \<noteq> - 1" and "v \<noteq> - 2"
  shows "solveCell env row col st =
     (case (if rule1 (int (length (unopenedNeighbors st row col))) (Num v)
                  (int (length (flaggedNeighbors st row col)))
            then flagLoop env (unopenedNeighbors st row col) st else (Continue, st)) of
        (Continue, st1) \<Rightarrow>
          if rule2 (int (length (unopenedNeighbors st row col))) (Num v)
               (int (length (flaggedNeighbors st row col)))
          then revealLoop env (unopenedNeighbors st row col) st1 else (Continue, st1)
      | (sig, st1) \<Rightarrow> (sig, st1))"
proof -
  have "\<forall>p \<in> set (neighborsOf (width st) (height st) row col).
          cellAt (board st) (fst p) (snd p) \<noteq> None"
    using cellAt_neighbor [OF assms(1)] by blast
  from countNeighbors_spec [OF this, of 0 0 "[]"]
  have "countNeighbors (board st) (neighborsOf (width st) (height st) row col) (0, 0, []) =
          Inr (int (length (unopenedNeighbors st row col)),
               int (length (flaggedNeighbors st row col)), unopenedNeighbors st row col)"
    by (simp add: unopenedNeighbors_def flaggedNeighbors_def)
  with assms(2-7) show ?thesis by (simp add: solveCell_def)
qed

lemma unopenedNeighbors_distinct: "distinct (unopenedNeighbors st row col)"
  by (simp add: unopenedNeighbors_def neighborsOf_distinct)

section \<open>The board of the variables is always that of a snapshot\<close>

lemma wellFormed_fields:
  "board st' = board bs \<Longrightarrow> width st' = width bs \<Longrightarrow> height st' = height bs \<Longrightarrow>
   wellFormed bs \<Longrightarrow> wellFormed st'"
  by (simp add: wellFormed_def)

lemma initVars_wellFormed:
  assumes "getBoardState env w = (Inr bs, w1)"
  shows "wellFormed (initVars bs w1)"
proof -
  from assms have "wellFormed bs" using getBoardState_wellFormed [of env w bs] by simp
  then show ?thesis by (rule wellFormed_fields [rotated 3]) (simp_all add: initVars_def)
qed

lemma clickAndRefresh_wellFormed:
  assumes "clickAndRefresh env nr nc isRightClick st = (sig, st')" and "wellFormed st"
  shows "wellFormed st'"
proof -
  from clickAndRefresh_result [OF assms(1)] obtain snap where
    t: "trace st' = trace st @ [((nr, nc, if isRightClick then Flag else Reveal), snap)]" and
    r: "case snap of
          Inl e \<Rightarrow> sig = Throw e \<and> board st' = board st \<and> width st' = width st \<and>
                   height st' = height st \<and> actionTaken st' = actionTaken st
        | Inr bs \<Rightarrow> board st' = board bs \<and> width st' = width bs \<and> height st' = height bs \<and>
                   wellFormed bs \<and>
                   (if gameOver bs then sig = Return False \<and> actionTaken st' = actionTaken st
                    else sig = Continue \<and> actionTaken st')"
    by auto
  show ?thesis
  proof (cases snap)
    case (Inl e)
    with r assms(2) show ?thesis by (auto intro: wellFormed_fields)
  next
    case (Inr bs)
    with r show ?thesis by (auto intro: wellFormed_fields)
  qed
qed

lemma flagLoop_wellFormed:
  "flagLoop env ns st = (sig, st') \<Longrightarrow> wellFormed st \<Longrightarrow> wellFormed st'"
proof (induction ns arbitrary: st)
  case Nil
  then show ?case by simp
next
  case (Cons p rest)
  obtain nr nc where p: "p = (nr, nc)" by (cases p)
  show ?case
  proof (cases "cellAt (board st) nr nc")
    case None
    with Cons.prems p show ?thesis by auto
  next
    case (Some c)
    show ?thesis
    proof (cases "flagged c")
      case True
      with Cons p Some show ?thesis by simp
    next
      case False
      obtain sig1 st1 where click: "clickAndRefresh env nr nc True st = (sig1, st1)"
        by (cases "clickAndRefresh env nr nc True st")
      from clickAndRefresh_wellFormed [OF click Cons.prems(2)] have w1: "wellFormed st1" .
      show ?thesis
      proof (cases "sig1 = Continue")
        case True
        with Cons.prems p Some False click have "flagLoop env rest st1 = (sig, st')" by simp
        from Cons.IH [OF this w1] show ?thesis .
      next
        case stop: False
        with Cons.prems p Some False click have "st' = st1" by (cases sig1; simp)
        with w1 show ?thesis by simp
      qed
    qed
  qed
qed

lemma revealLoop_wellFormed:
  "revealLoop env ns st = (sig, st') \<Longrightarrow> wellFormed st \<Longrightarrow> wellFormed st'"
proof (induction ns arbitrary: st)
  case Nil
  then show ?case by simp
next
  case (Cons p rest)
  obtain nr nc where p: "p = (nr, nc)" by (cases p)
  obtain sig1 st1 where click: "clickAndRefresh env nr nc False st = (sig1, st1)"
    by (cases "clickAndRefresh env nr nc False st")
  from clickAndRefresh_wellFormed [OF click Cons.prems(2)] have w1: "wellFormed st1" .
  show ?case
  proof (cases "sig1 = Continue")
    case True
    with Cons.prems p click have "revealLoop env rest st1 = (sig, st')" by simp
    from Cons.IH [OF this w1] show ?thesis .
  next
    case stop: False
    with Cons.prems p click have "st' = st1" by (cases sig1; simp)
    with w1 show ?thesis by simp
  qed
qed

lemma solveCell_wellFormed:
  assumes "solveCell env row col st = (sig, st')" and "wellFormed st"
  shows "wellFormed st'"
proof (cases "cellAt (board st) row col")
  case None
  with assms show ?thesis by (auto simp: solveCell_def)
next
  case (Some cell)
  show ?thesis
  proof (cases "cvalue cell")
    case None
    with assms Some show ?thesis by (auto simp: solveCell_def)
  next
    case v: (Some v)
    show ?thesis
    proof (cases "\<not> revealed cell \<or> v = Num 0 \<or> v = Num (- 1) \<or> v = Num (- 2)")
      case True
      with assms Some v show ?thesis by (auto simp: solveCell_def)
    next
      case False
      show ?thesis
      proof (cases "countNeighbors (board st) (neighborsOf (width st) (height st) row col)
                      (0, 0, [])")
        case (Inl e)
        with assms Some v False show ?thesis by (auto simp: solveCell_def)
      next
        case (Inr r)
        obtain u f ns where r: "r = (u, f, ns)" by (cases r)
        obtain sig1 st1 where first:
          "(if rule1 u v f then flagLoop env ns st else (Continue, st)) = (sig1, st1)"
          by (cases "if rule1 u v f then flagLoop env ns st else (Continue, st)")
        have w1: "wellFormed st1"
        proof (cases "rule1 u v f")
          case True
          with first have "flagLoop env ns st = (sig1, st1)" by simp
          from flagLoop_wellFormed [OF this assms(2)] show ?thesis .
        next
          case False
          with first assms(2) show ?thesis by auto
        qed
        from assms(1) Some v False Inr r first
        have res: "(sig, st') =
            (case (sig1, st1) of
               (Continue, st1) \<Rightarrow> if rule2 u v f then revealLoop env ns st1 else (Continue, st1)
             | (sig, st1) \<Rightarrow> (sig, st1))"
          by (simp add: solveCell_def)
        show ?thesis
        proof (cases "sig1 = Continue")
          case True
          show ?thesis
          proof (cases "rule2 u v f")
            case r2: True
            with res True have "revealLoop env ns st1 = (sig, st')" by simp
            from revealLoop_wellFormed [OF this w1] show ?thesis .
          next
            case r2: False
            with res True w1 show ?thesis by simp
          qed
        next
          case False
          with res have "st' = st1" by (cases sig1; simp)
          with w1 show ?thesis by simp
        qed
      qed
    qed
  qed
qed

lemma scan_wellFormed:
  assumes "scan env row col st = Some (sig, st')" and "wellFormed st"
  shows "wellFormed st'"
proof -
  have "wellFormed st \<longrightarrow> wellFormed (snd y)" if "scan env row col st = Some y" for y
    using that
  proof (induction env row col st y rule: scan.raw_induct [rotated 1, consumes 1])
    case (1 scan' env row col st y)
    show ?case
    proof
      assume s: "wellFormed st"
      show "wellFormed (snd y)"
      proof (cases "row < height st")
        case False
        with 1(2) s show ?thesis by auto
      next
        case row: True
        show ?thesis
        proof (cases "col < width st")
          case False
          with 1(2) row have "scan' env (row + 1) 0 st = Some y" by simp
          from 1(1) [OF this] s show ?thesis by simp
        next
          case col: True
          obtain sig1 st1 where cell: "solveCell env row col st = (sig1, st1)"
            by (cases "solveCell env row col st")
          from solveCell_wellFormed [OF cell s] have w1: "wellFormed st1" .
          show ?thesis
          proof (cases "sig1 = Continue")
            case True
            with 1(2) row col cell have "scan' env row (col + 1) st1 = Some y" by simp
            with w1 show ?thesis using 1(1) by blast
          next
            case False
            with 1(2) row col cell have "y = (sig1, st1)" by (cases sig1; simp)
            with w1 show ?thesis by simp
          qed
        qed
      qed
    qed
  qed
  from this [OF assms(1)] assms(2) show ?thesis by simp
qed

section \<open>The log is what the world gave\<close>

lemma logged_refl: "logged env st sig st"
  by (simp add: logged_def)

lemma logged_trans:
  assumes "logged env st Continue st1" and "logged env st1 sig st'"
  shows "logged env st sig st'"
proof -
  from assms(1) obtain a where
    ta: "trace st1 = trace st @ a" and ga: "genuine env (world st) a (world st1)" and
    qa: "quiet a"
    by (auto simp: logged_def)
  from assms(2) obtain b where
    tb: "trace st' = trace st1 @ b" and gb: "genuine env (world st1) b (world st')" and
    qb: "sig = Continue \<longrightarrow> quiet b"
    by (auto simp: logged_def)
  from genuine_append [OF ga qa gb] have "genuine env (world st) (a @ b) (world st')" .
  moreover from ta tb have "trace st' = trace st @ (a @ b)" by simp
  moreover from qa qb have "sig = Continue \<longrightarrow> quiet (a @ b)" by simp
  ultimately show ?thesis unfolding logged_def by blast
qed

lemma flagLoop_logged: "flagLoop env ns st = (sig, st') \<Longrightarrow> logged env st sig st'"
  unfolding logged_def by (rule flagLoop_genuine)

lemma revealLoop_logged: "revealLoop env ns st = (sig, st') \<Longrightarrow> logged env st sig st'"
  unfolding logged_def by (rule revealLoop_genuine)

lemma solveCell_logged:
  assumes "solveCell env row col st = (sig, st')"
  shows "logged env st sig st'"
proof (cases "cellAt (board st) row col")
  case None
  with assms show ?thesis by (auto simp: solveCell_def logged_refl)
next
  case (Some cell)
  show ?thesis
  proof (cases "cvalue cell")
    case None
    with assms Some show ?thesis by (auto simp: solveCell_def logged_refl)
  next
    case v: (Some v)
    show ?thesis
    proof (cases "\<not> revealed cell \<or> v = Num 0 \<or> v = Num (- 1) \<or> v = Num (- 2)")
      case True
      with assms Some v show ?thesis by (auto simp: solveCell_def logged_refl)
    next
      case False
      show ?thesis
      proof (cases "countNeighbors (board st) (neighborsOf (width st) (height st) row col)
                      (0, 0, [])")
        case (Inl e)
        with assms Some v False show ?thesis by (auto simp: solveCell_def logged_refl)
      next
        case (Inr r)
        obtain u f ns where r: "r = (u, f, ns)" by (cases r)
        obtain sig1 st1 where first:
          "(if rule1 u v f then flagLoop env ns st else (Continue, st)) = (sig1, st1)"
          by (cases "if rule1 u v f then flagLoop env ns st else (Continue, st)")
        have l1: "logged env st sig1 st1"
        proof (cases "rule1 u v f")
          case True
          with first have "flagLoop env ns st = (sig1, st1)" by simp
          then show ?thesis by (rule flagLoop_logged)
        next
          case False
          with first show ?thesis by (auto simp: logged_refl)
        qed
        from assms(1) Some v False Inr r first
        have res: "(sig, st') =
            (case (sig1, st1) of
               (Continue, st1) \<Rightarrow> if rule2 u v f then revealLoop env ns st1 else (Continue, st1)
             | (sig, st1) \<Rightarrow> (sig, st1))"
          by (simp add: solveCell_def)
        show ?thesis
        proof (cases "sig1 = Continue")
          case True
          show ?thesis
          proof (cases "rule2 u v f")
            case r2: True
            with res True have "revealLoop env ns st1 = (sig, st')" by simp
            then have "logged env st1 sig st'" by (rule revealLoop_logged)
            with l1 True show ?thesis using logged_trans by blast
          next
            case r2: False
            with res True l1 show ?thesis by simp
          qed
        next
          case False
          with res have "sig = sig1" "st' = st1" by (cases sig1; simp)+
          with l1 show ?thesis by simp
        qed
      qed
    qed
  qed
qed

lemma scan_logged:
  assumes "scan env row col st = Some (sig, st')"
  shows "logged env st sig st'"
proof -
  have "logged env st (fst y) (snd y)" if "scan env row col st = Some y" for y
    using that
  proof (induction env row col st y rule: scan.raw_induct [rotated 1, consumes 1])
    case (1 scan' env row col st y)
    show ?case
    proof (cases "row < height st")
      case False
      with 1(2) show ?thesis by (auto simp: logged_refl)
    next
      case row: True
      show ?thesis
      proof (cases "col < width st")
        case False
        with 1(2) row have "scan' env (row + 1) 0 st = Some y" by simp
        from 1(1) [OF this] show ?thesis .
      next
        case col: True
        obtain sig1 st1 where cell: "solveCell env row col st = (sig1, st1)"
          by (cases "solveCell env row col st")
        from solveCell_logged [OF cell] have l1: "logged env st sig1 st1" .
        show ?thesis
        proof (cases "sig1 = Continue")
          case True
          with 1(2) row col cell have "scan' env row (col + 1) st1 = Some y" by simp
          from 1(1) [OF this] have "logged env st1 (fst y) (snd y)" .
          with l1 True show ?thesis using logged_trans by blast
        next
          case False
          with 1(2) row col cell have "y = (sig1, st1)" by (cases sig1; simp)
          with l1 show ?thesis by simp
        qed
      qed
    qed
  qed
  from this [OF assms] show ?thesis by simp
qed

section \<open>Rule 1 and rule 2 at one cell\<close>

lemma shownFlagged_iff:
  "shownFlagged tr p \<longleftrightarrow> (\<exists>a bs. (a, Inr bs) \<in> set tr \<and> flaggedAt (board bs) p)"
  unfolding shownFlagged_def list_ex_iff
proof
  assume "\<exists>x \<in> set tr. case x of (a, snap) \<Rightarrow>
            (case snap of Inr bs \<Rightarrow> flaggedAt (board bs) p | Inl e \<Rightarrow> False)"
  then obtain a snap where x: "(a, snap) \<in> set tr"
    and f: "case snap of Inr bs \<Rightarrow> flaggedAt (board bs) p | Inl e \<Rightarrow> False"
    by auto
  show "\<exists>a bs. (a, Inr bs) \<in> set tr \<and> flaggedAt (board bs) p"
  proof (cases snap)
    case (Inl e)
    with f show ?thesis by simp
  next
    case (Inr bs)
    with f have "flaggedAt (board bs) p" by simp
    with x Inr show ?thesis by blast
  qed
next
  assume "\<exists>a bs. (a, Inr bs) \<in> set tr \<and> flaggedAt (board bs) p"
  then obtain a bs where "(a, Inr bs) \<in> set tr" "flaggedAt (board bs) p" by blast
  then show "\<exists>x \<in> set tr. case x of (a, snap) \<Rightarrow>
            (case snap of Inr bs \<Rightarrow> flaggedAt (board bs) p | Inl e \<Rightarrow> False)"
    by (intro bexI [of _ "(a, Inr bs)"]) simp_all
qed

lemma same_log:
  assumes "trace st' = trace st @ a" and "trace st' = trace st @ b"
  shows "a = b"
  using assms by simp

text \<open>
  C1, as amended. Let the scan reach a revealed cell with a value \<open>v\<close> in 1..8, with
  \<open>u > 0\<close> neighbours neither revealed nor flagged and \<open>f\<close> flagged ones, and
  \<open>u = v - f\<close>. Then the entries that the cell adds to the log are real clicks and
  real snapshots of the world, and they are those of rule 1 taken in turn over the \<open>u\<close>
  neighbours (\<open>flagsInTurn\<close>): a neighbour is passed over exactly when the board of the
  latest snapshot shows it flagged, and every other neighbour gets a Flag action; this
  ends before the list does only at an action whose click is rejected or whose snapshot
  fails (\<open>solveStep\<close> throws that error) or is game over (\<open>solveStep\<close> returns
  \<open>false\<close>), or at a neighbour that the board of the latest snapshot no longer has (a
  \<open>TypeError\<close>). So the actions of the cell are Flag actions only, on unopened
  neighbours of the cell, each at most once and in the order of the enumeration; every
  snapshot but the last is read and not game over; when the cell is left normally, every
  neighbour got its Flag action or was shown flagged by a snapshot after an earlier one
  of these actions.
\<close>

theorem rule1_flags_unopened_neighbors:
  assumes "wellFormed st"
    and "cellAt (board st) row col = Some c" and "revealed c"
    and "cvalue c = Some (Num v)" and "1 \<le> v" and "v \<le> 8"
    and "unopenedNeighbors st row col \<noteq> []"
    and "int (length (unopenedNeighbors st row col)) =
           v - int (length (flaggedNeighbors st row col))"
    and "solveCell env row col st = (sig, st')"
  shows "\<exists>new. trace st' = trace st @ new \<and>
           genuine env (world st) new (world st') \<and>
           flagsInTurn (board st) (unopenedNeighbors st row col) new sig \<and>
           quiet (butlast new) \<and>
           (\<exists>ps. subseq ps (unopenedNeighbors st row col) \<and> distinct ps \<and>
              map fst new = map flagAction ps) \<and>
           (sig = Continue \<longrightarrow>
              quiet new \<and>
              (\<forall>p \<in> set (unopenedNeighbors st row col).
                 flagAction p \<in> set (map fst new) \<or>
                 (\<exists>a bs. (a, Inr bs) \<in> set new \<and> flaggedAt (board bs) p))) \<and>
           (sig \<noteq> Continue \<longrightarrow>
              interrupted sig new \<or>
              (sig = Throw TypeError \<and> new \<noteq> [] \<and>
               (\<exists>p \<in> set (unopenedNeighbors st row col).
                  cellAt (board st') (fst p) (snd p) = None)))"
proof -
  let ?ns = "unopenedNeighbors st row col"
  let ?u = "int (length ?ns)"
  let ?f = "int (length (flaggedNeighbors st row col))"
  from assms(7) have u: "0 < ?u" by simp
  with assms(8) have r1: "rule1 ?u (Num v) ?f" by (simp add: rule1_def)
  from u assms(8) have r2: "\<not> rule2 ?u (Num v) ?f" by (simp add: rule2_def)
  from assms(5) have v: "v \<noteq> 0" "v \<noteq> - 1" "v \<noteq> - 2" by simp_all
  have "solveCell env row col st = flagLoop env ?ns st"
    unfolding solveCell_numbered [OF assms(1-4) v] using r1 r2
    by (simp split: prod.splits signal.splits)
  with assms(9) have loop: "flagLoop env ?ns st = (sig, st')" by simp
  from flagLoop_trace [OF loop] obtain new ps where
    t: "trace st' = trace st @ new" and s: "subseq ps ?ns" and
    m: "map fst new = map flagAction ps" and e: "new = [] \<longrightarrow> st' = st" and
    c: "sig = Continue \<longrightarrow>
         (\<forall>p \<in> set ?ns. flagAction p \<in> set (map fst new) \<or> flaggedAt (board st) p \<or>
           (\<exists>a bs. (a, Inr bs) \<in> set new \<and> flaggedAt (board bs) p))" and
    i: "sig \<noteq> Continue \<longrightarrow> interrupted sig new \<or>
         (sig = Throw TypeError \<and> (\<exists>p \<in> set ?ns. cellAt (board st') (fst p) (snd p) = None))"
    by blast
  from flagLoop_genuine [OF loop] obtain new1 where
    t1: "trace st' = trace st @ new1" and g1: "genuine env (world st) new1 (world st')"
    by blast
  from same_log [OF t1 t] g1 have g: "genuine env (world st) new (world st')" by simp
  from flagLoop_flagsInTurn [OF loop] obtain new2 where
    t2: "trace st' = trace st @ new2" and f2: "flagsInTurn (board st) ?ns new2 sig"
    by blast
  from same_log [OF t2 t] f2 have f: "flagsInTurn (board st) ?ns new sig" by simp
  from flagsInTurn_quiet [OF f] have q: "quiet (butlast new)" "sig = Continue \<longrightarrow> quiet new"
    by simp_all
  from s have d: "distinct ps"
    using unopenedNeighbors_distinct [of st row col] subseqs_distinctD [of ps ?ns] by simp
  have notFlagged: "\<not> flaggedAt (board st) p" if "p \<in> set ?ns" for p
    using that by (auto simp: unopenedNeighbors_def unopenedAt_def flaggedAt_def split: option.splits)
  have present: "cellAt (board st) (fst p) (snd p) \<noteq> None" if "p \<in> set ?ns" for p
    using that cellAt_neighbor [OF assms(1), of p row col] by (simp add: unopenedNeighbors_def)
  from s d m have ps: "\<exists>ps. subseq ps ?ns \<and> distinct ps \<and> map fst new = map flagAction ps"
    by blast
  from c q(2) notFlagged have c': "sig = Continue \<longrightarrow>
         quiet new \<and>
         (\<forall>p \<in> set ?ns. flagAction p \<in> set (map fst new) \<or>
           (\<exists>a bs. (a, Inr bs) \<in> set new \<and> flaggedAt (board bs) p))"
    by blast
  from i e present have i': "sig \<noteq> Continue \<longrightarrow> interrupted sig new \<or>
         (sig = Throw TypeError \<and> new \<noteq> [] \<and>
          (\<exists>p \<in> set ?ns. cellAt (board st') (fst p) (snd p) = None))"
    by blast
  from t g f q(1) ps c' i' show ?thesis by blast
qed

text \<open>On \<open>pageB\<close> the cell \<open>(0, 0)\<close> shows 2 and has the two unopened neighbours
  \<open>(0, 1)\<close> and \<open>(1, 0)\<close>. In the world where a right click flags both, the snapshot
  after the Flag on \<open>(0, 1)\<close> shows \<open>(1, 0)\<close> flagged, and \<open>(1, 0)\<close> is passed over.\<close>

theorem rule1_flags_unopened_neighbors_witness:
  "wellFormed (startOf envFlagsBoth pageB) \<and>
   cellAt (board (startOf envFlagsBoth pageB)) 0 0 =
     Some \<lparr>revealed = True, flagged = False, cvalue = Some (Num 2)\<rparr> \<and>
   unopenedNeighbors (startOf envFlagsBoth pageB) 0 0 = [(0, 1), (1, 0)] \<and>
   flaggedNeighbors (startOf envFlagsBoth pageB) 0 0 = [] \<and>
   fst (solveCell envFlagsBoth 0 0 (startOf envFlagsBoth pageB)) = Continue \<and>
   map fst (trace (snd (solveCell envFlagsBoth 0 0 (startOf envFlagsBoth pageB)))) =
     [(0, 1, Flag)] \<and>
   shownFlagged (trace (snd (solveCell envFlagsBoth 0 0 (startOf envFlagsBoth pageB)))) (1, 0) \<and>
   (\<exists>new. trace (snd (solveCell envFlagsBoth 0 0 (startOf envFlagsBoth pageB))) = [] @ new \<and>
      genuine envFlagsBoth (world (startOf envFlagsBoth pageB)) new
        (world (snd (solveCell envFlagsBoth 0 0 (startOf envFlagsBoth pageB)))) \<and>
      flagsInTurn (board (startOf envFlagsBoth pageB)) [(0, 1), (1, 0)] new Continue \<and>
      quiet new)"
proof -
  let ?st = "startOf envFlagsBoth pageB"
  let ?c = "\<lparr>revealed = True, flagged = False, cvalue = Some (Num 2)\<rparr>"
  have wf: "wellFormed ?st" by code_simp
  have c: "cellAt (board ?st) 0 0 = Some ?c" by code_simp
  have rv: "revealed ?c" and cv: "cvalue ?c = Some (Num 2)" by simp_all
  have ns: "unopenedNeighbors ?st 0 0 = [(0, 1), (1, 0)]" by code_simp
  have fs: "flaggedNeighbors ?st 0 0 = []" by code_simp
  have tr: "trace ?st = []" by code_simp
  have sg: "fst (solveCell envFlagsBoth 0 0 ?st) = Continue" by code_simp
  have acts: "map fst (trace (snd (solveCell envFlagsBoth 0 0 ?st))) = [(0, 1, Flag)]"
    by code_simp
  have shown: "shownFlagged (trace (snd (solveCell envFlagsBoth 0 0 ?st))) (1, 0)"
    by code_simp
  from sg have run: "solveCell envFlagsBoth 0 0 ?st =
      (Continue, snd (solveCell envFlagsBoth 0 0 ?st))"
    by (metis prod.collapse)
  have ne: "unopenedNeighbors ?st 0 0 \<noteq> []" by (simp add: ns)
  have eq: "int (length (unopenedNeighbors ?st 0 0)) = 2 - int (length (flaggedNeighbors ?st 0 0))"
    by (simp add: ns fs)
  from rule1_flags_unopened_neighbors [OF wf c rv cv _ _ ne eq run]
  have "\<exists>new. trace (snd (solveCell envFlagsBoth 0 0 ?st)) = [] @ new \<and>
      genuine envFlagsBoth (world ?st) new (world (snd (solveCell envFlagsBoth 0 0 ?st))) \<and>
      flagsInTurn (board ?st) [(0, 1), (1, 0)] new Continue \<and> quiet new"
    unfolding ns tr by simp
  with wf c ns fs sg acts shown show ?thesis by (intro conjI)
qed

text \<open>
  C1 as stated has all \<open>u\<close> neighbours flagged. On \<open>pageB\<close> the cell \<open>(0, 0)\<close> shows 2
  and has the two unopened neighbours \<open>(0, 1)\<close> and \<open>(1, 0)\<close>. In a world where the right
  click opens the cell on a mine, the snapshot after the first Flag action is game over,
  the step returns \<open>false\<close> (line 256), and \<open>(1, 0)\<close> gets no action although no snapshot
  showed it flagged.
\<close>

theorem rule1_interrupted_counterexample:
  "wellFormed (startOf envRightClickOpens pageB) \<and>
   cellAt (board (startOf envRightClickOpens pageB)) 0 0 =
     Some \<lparr>revealed = True, flagged = False, cvalue = Some (Num 2)\<rparr> \<and>
   unopenedNeighbors (startOf envRightClickOpens pageB) 0 0 = [(0, 1), (1, 0)] \<and>
   flaggedNeighbors (startOf envRightClickOpens pageB) 0 0 = [] \<and>
   fst (solveCell envRightClickOpens 0 0 (startOf envRightClickOpens pageB)) = Return False \<and>
   map fst (trace (snd (solveCell envRightClickOpens 0 0 (startOf envRightClickOpens pageB)))) =
     [(0, 1, Flag)] \<and>
   \<not> shownFlagged
       (trace (snd (solveCell envRightClickOpens 0 0 (startOf envRightClickOpens pageB)))) (1, 0) \<and>
   \<not> (\<forall>p \<in> set (unopenedNeighbors (startOf envRightClickOpens pageB) 0 0).
         flagAction p \<in> set (map fst
           (trace (snd (solveCell envRightClickOpens 0 0 (startOf envRightClickOpens pageB))))) \<or>
         shownFlagged
           (trace (snd (solveCell envRightClickOpens 0 0 (startOf envRightClickOpens pageB)))) p)"
  by code_simp

text \<open>
  C2, as amended. Let the scan reach a revealed cell with a value \<open>v\<close> in 1..8, with
  \<open>u > 0\<close> neighbours neither revealed nor flagged and \<open>f\<close> flagged ones, and \<open>v = f\<close>.
  Then the entries that the cell adds to the log are real clicks and real snapshots of
  the world, and they are those of rule 2 taken in turn over the \<open>u\<close> neighbours
  (\<open>revealsInTurn\<close>): Reveal actions on the unopened neighbours, in the order of the
  enumeration, starting with the first and without a gap, and every snapshot but the last
  is read and not game over. When the cell is left normally, these are the Reveal actions
  of all \<open>u\<close> neighbours, one each. The cell is left otherwise only at an action whose
  click is rejected or whose snapshot fails (\<open>solveStep\<close> throws that error) or is game
  over (\<open>solveStep\<close> returns \<open>false\<close>); the neighbours after that point get no action.
\<close>

theorem rule2_reveals_unopened_neighbors:
  assumes "wellFormed st"
    and "cellAt (board st) row col = Some c" and "revealed c"
    and "cvalue c = Some (Num v)" and "1 \<le> v" and "v \<le> 8"
    and "unopenedNeighbors st row col \<noteq> []"
    and "v = int (length (flaggedNeighbors st row col))"
    and "solveCell env row col st = (sig, st')"
  shows "\<exists>new. trace st' = trace st @ new \<and>
           genuine env (world st) new (world st') \<and>
           revealsInTurn (unopenedNeighbors st row col) new sig \<and>
           prefix (map fst new) (map revealAction (unopenedNeighbors st row col)) \<and>
           quiet (butlast new) \<and>
           (sig = Continue \<longrightarrow>
              map fst new = map revealAction (unopenedNeighbors st row col) \<and> quiet new) \<and>
           (sig \<noteq> Continue \<longrightarrow> interrupted sig new)"
proof -
  let ?ns = "unopenedNeighbors st row col"
  let ?u = "int (length ?ns)"
  let ?f = "int (length (flaggedNeighbors st row col))"
  from assms(7) have u: "0 < ?u" by simp
  with assms(8) have r1: "\<not> rule1 ?u (Num v) ?f" by (simp add: rule1_def)
  from u assms(8) have r2: "rule2 ?u (Num v) ?f" by (simp add: rule2_def)
  from assms(5) have v: "v \<noteq> 0" "v \<noteq> - 1" "v \<noteq> - 2" by simp_all
  have "solveCell env row col st = revealLoop env ?ns st"
    unfolding solveCell_numbered [OF assms(1-4) v] using r1 r2 by simp
  with assms(9) have loop: "revealLoop env ?ns st = (sig, st')" by simp
  from revealLoop_trace [OF loop] obtain new k where
    t: "trace st' = trace st @ new" and k: "k \<le> length ?ns" and
    m: "map fst new = map revealAction (take k ?ns)" and
    c: "sig = Continue \<longrightarrow> k = length ?ns" and
    i: "sig \<noteq> Continue \<longrightarrow> interrupted sig new"
    by blast
  from revealLoop_genuine [OF loop] obtain new1 where
    t1: "trace st' = trace st @ new1" and g1: "genuine env (world st) new1 (world st')"
    by blast
  from same_log [OF t1 t] g1 have g: "genuine env (world st) new (world st')" by simp
  from revealLoop_revealsInTurn [OF loop] obtain new2 where
    t2: "trace st' = trace st @ new2" and f2: "revealsInTurn ?ns new2 sig"
    by blast
  from same_log [OF t2 t] f2 have f: "revealsInTurn ?ns new sig" by simp
  from revealsInTurn_quiet [OF f] have q: "quiet (butlast new)" "sig = Continue \<longrightarrow> quiet new"
    by simp_all
  from m have p: "prefix (map fst new) (map revealAction ?ns)"
    by (simp add: take_is_prefix take_map [symmetric])
  from m c q(2) have c': "sig = Continue \<longrightarrow> map fst new = map revealAction ?ns \<and> quiet new"
    by simp
  from t g f p q(1) c' i show ?thesis by blast
qed

theorem rule2_reveals_unopened_neighbors_witness:
  "wellFormed (startOf envOpens pageC) \<and>
   cellAt (board (startOf envOpens pageC)) 0 0 =
     Some \<lparr>revealed = True, flagged = False, cvalue = Some (Num 1)\<rparr> \<and>
   unopenedNeighbors (startOf envOpens pageC) 0 0 = [(1, 0), (1, 1)] \<and>
   flaggedNeighbors (startOf envOpens pageC) 0 0 = [(0, 1)] \<and>
   fst (solveCell envOpens 0 0 (startOf envOpens pageC)) = Continue \<and>
   map fst (trace (snd (solveCell envOpens 0 0 (startOf envOpens pageC)))) =
     [(1, 0, Reveal), (1, 1, Reveal)] \<and>
   quiet (trace (snd (solveCell envOpens 0 0 (startOf envOpens pageC)))) \<and>
   genuine envOpens (world (startOf envOpens pageC))
     (trace (snd (solveCell envOpens 0 0 (startOf envOpens pageC))))
     (world (snd (solveCell envOpens 0 0 (startOf envOpens pageC))))"
proof -
  let ?st = "startOf envOpens pageC"
  let ?c = "\<lparr>revealed = True, flagged = False, cvalue = Some (Num 1)\<rparr>"
  have wf: "wellFormed ?st" by code_simp
  have c: "cellAt (board ?st) 0 0 = Some ?c" by code_simp
  have rv: "revealed ?c" and cv: "cvalue ?c = Some (Num 1)" by simp_all
  have ns: "unopenedNeighbors ?st 0 0 = [(1, 0), (1, 1)]" by code_simp
  have fs: "flaggedNeighbors ?st 0 0 = [(0, 1)]" by code_simp
  have tr: "trace ?st = []" by code_simp
  have sg: "fst (solveCell envOpens 0 0 ?st) = Continue" by code_simp
  then have run: "solveCell envOpens 0 0 ?st = (Continue, snd (solveCell envOpens 0 0 ?st))"
    by (metis prod.collapse)
  have ne: "unopenedNeighbors ?st 0 0 \<noteq> []" by (simp add: ns)
  have eq: "1 = int (length (flaggedNeighbors ?st 0 0))" by (simp add: fs)
  from rule2_reveals_unopened_neighbors [OF wf c rv cv _ _ ne eq run]
  have "map fst (trace (snd (solveCell envOpens 0 0 ?st))) = [(1, 0, Reveal), (1, 1, Reveal)] \<and>
    quiet (trace (snd (solveCell envOpens 0 0 ?st))) \<and>
    genuine envOpens (world ?st) (trace (snd (solveCell envOpens 0 0 ?st)))
      (world (snd (solveCell envOpens 0 0 ?st)))"
    unfolding ns tr by (auto simp: revealAction_def)
  with wf c ns fs sg show ?thesis by (intro conjI) simp_all
qed

text \<open>
  C2 as stated has all \<open>u\<close> neighbours revealed. On \<open>pageC\<close> the cell \<open>(0, 0)\<close> shows 1,
  has one flagged neighbour and the two unopened neighbours \<open>(1, 0)\<close> and \<open>(1, 1)\<close>. In a
  world where the flag is on the wrong cell and \<open>(1, 0)\<close> is a mine, the snapshot after
  the first Reveal action is game over, the step returns \<open>false\<close> (line 275), and
  \<open>(1, 1)\<close> gets no action.
\<close>

theorem rule2_interrupted_counterexample:
  "wellFormed (startOf envWrongFlag pageC) \<and>
   cellAt (board (startOf envWrongFlag pageC)) 0 0 =
     Some \<lparr>revealed = True, flagged = False, cvalue = Some (Num 1)\<rparr> \<and>
   unopenedNeighbors (startOf envWrongFlag pageC) 0 0 = [(1, 0), (1, 1)] \<and>
   flaggedNeighbors (startOf envWrongFlag pageC) 0 0 = [(0, 1)] \<and>
   fst (solveCell envWrongFlag 0 0 (startOf envWrongFlag pageC)) = Return False \<and>
   map fst (trace (snd (solveCell envWrongFlag 0 0 (startOf envWrongFlag pageC)))) =
     [(1, 0, Reveal)] \<and>
   revealAction (1, 1) \<notin>
     set (map fst (trace (snd (solveCell envWrongFlag 0 0 (startOf envWrongFlag pageC)))))"
  by code_simp

section \<open>What a step returns\<close>

lemma interrupted_snoc [simp]:
  "interrupted sig (tr @ [(a, snap)]) \<longleftrightarrow>
     (case snap of Inr bs \<Rightarrow> gameOver bs \<and> sig = Return False | Inl e \<Rightarrow> sig = Throw e)"
  by (simp add: interrupted_def)

lemma clickAndRefresh_outcome:
  assumes "clickAndRefresh env nr nc isRightClick st = (sig, st')" and "steady st"
  shows "outcome sig st'"
proof -
  from clickAndRefresh_result [OF assms(1)] obtain snap where
    t: "trace st' = trace st @ [((nr, nc, if isRightClick then Flag else Reveal), snap)]" and
    r: "case snap of
          Inl e \<Rightarrow> sig = Throw e \<and> board st' = board st \<and> width st' = width st \<and>
                   height st' = height st \<and> actionTaken st' = actionTaken st
        | Inr bs \<Rightarrow> board st' = board bs \<and> width st' = width bs \<and> height st' = height bs \<and>
                   wellFormed bs \<and>
                   (if gameOver bs then sig = Return False \<and> actionTaken st' = actionTaken st
                    else sig = Continue \<and> actionTaken st')"
    by auto
  show ?thesis
  proof (cases snap)
    case (Inl e)
    with r t assms(2) show ?thesis by (simp add: outcome_def steady_def)
  next
    case (Inr bs)
    with r t assms(2) show ?thesis
      by (cases "gameOver bs") (simp_all add: outcome_def steady_def)
  qed
qed

lemma flagLoop_outcome:
  "flagLoop env ns st = (sig, st') \<Longrightarrow> steady st \<Longrightarrow> outcome sig st'"
proof (induction ns arbitrary: st)
  case Nil
  then show ?case by (simp add: outcome_def)
next
  case (Cons p rest)
  obtain nr nc where p: "p = (nr, nc)" by (cases p)
  show ?case
  proof (cases "cellAt (board st) nr nc")
    case None
    with Cons.prems p show ?thesis by (auto simp: outcome_def steady_def)
  next
    case (Some c)
    show ?thesis
    proof (cases "flagged c")
      case True
      with Cons p Some show ?thesis by simp
    next
      case False
      obtain sig1 st1 where click: "clickAndRefresh env nr nc True st = (sig1, st1)"
        by (cases "clickAndRefresh env nr nc True st")
      from clickAndRefresh_outcome [OF click Cons.prems(2)] have o1: "outcome sig1 st1" .
      show ?thesis
      proof (cases "sig1 = Continue")
        case True
        with Cons.prems p Some False click have "flagLoop env rest st1 = (sig, st')" by simp
        moreover from o1 True have "steady st1" by (simp add: outcome_def)
        ultimately show ?thesis by (rule Cons.IH)
      next
        case stop: False
        with Cons.prems p Some False click have "sig = sig1" "st' = st1"
          by (cases sig1; simp)+
        with o1 show ?thesis by simp
      qed
    qed
  qed
qed

lemma revealLoop_outcome:
  "revealLoop env ns st = (sig, st') \<Longrightarrow> steady st \<Longrightarrow> outcome sig st'"
proof (induction ns arbitrary: st)
  case Nil
  then show ?case by (simp add: outcome_def)
next
  case (Cons p rest)
  obtain nr nc where p: "p = (nr, nc)" by (cases p)
  obtain sig1 st1 where click: "clickAndRefresh env nr nc False st = (sig1, st1)"
    by (cases "clickAndRefresh env nr nc False st")
  from clickAndRefresh_outcome [OF click Cons.prems(2)] have o1: "outcome sig1 st1" .
  show ?case
  proof (cases "sig1 = Continue")
    case True
    with Cons.prems p click have "revealLoop env rest st1 = (sig, st')" by simp
    moreover from o1 True have "steady st1" by (simp add: outcome_def)
    ultimately show ?thesis by (rule Cons.IH)
  next
    case stop: False
    with Cons.prems p click have "sig = sig1" "st' = st1"
      by (cases sig1; simp)+
    with o1 show ?thesis by simp
  qed
qed

lemma countNeighbors_error: "countNeighbors b ps acc = Inl e \<Longrightarrow> e = TypeError"
proof (induction ps arbitrary: acc)
  case Nil
  then show ?case by simp
next
  case (Cons p ps)
  obtain nr nc where p: "p = (nr, nc)" by (cases p)
  obtain u f ns where acc: "acc = (u, f, ns)" by (cases acc)
  from Cons.prems show ?case
    unfolding p acc using Cons.IH
    by (auto split: option.splits if_splits)
qed

lemma solveCell_outcome:
  assumes "solveCell env row col st = (sig, st')" and "steady st"
  shows "outcome sig st'"
proof (cases "cellAt (board st) row col")
  case None
  with assms show ?thesis by (auto simp: solveCell_def outcome_def steady_def)
next
  case (Some cell)
  show ?thesis
  proof (cases "cvalue cell")
    case None
    with assms Some show ?thesis by (auto simp: solveCell_def outcome_def)
  next
    case v: (Some v)
    show ?thesis
    proof (cases "\<not> revealed cell \<or> v = Num 0 \<or> v = Num (- 1) \<or> v = Num (- 2)")
      case True
      with assms Some v show ?thesis by (auto simp: solveCell_def outcome_def)
    next
      case False
      show ?thesis
      proof (cases "countNeighbors (board st) (neighborsOf (width st) (height st) row col)
                      (0, 0, [])")
        case (Inl e)
        from countNeighbors_error [OF this] have "e = TypeError" .
        with assms Some v False Inl show ?thesis
          by (auto simp: solveCell_def outcome_def steady_def)
      next
        case (Inr r)
        obtain u f ns where r: "r = (u, f, ns)" by (cases r)
        obtain sig1 st1 where first:
          "(if rule1 u v f then flagLoop env ns st else (Continue, st)) = (sig1, st1)"
          by (cases "if rule1 u v f then flagLoop env ns st else (Continue, st)")
        have o1: "outcome sig1 st1"
        proof (cases "rule1 u v f")
          case True
          with first have "flagLoop env ns st = (sig1, st1)" by simp
          from flagLoop_outcome [OF this assms(2)] show ?thesis .
        next
          case False
          with first assms(2) show ?thesis by (auto simp: outcome_def)
        qed
        from assms(1) Some v False Inr r first
        have res: "(sig, st') =
            (case (sig1, st1) of
               (Continue, st1) \<Rightarrow> if rule2 u v f then revealLoop env ns st1 else (Continue, st1)
             | (sig, st1) \<Rightarrow> (sig, st1))"
          by (simp add: solveCell_def)
        show ?thesis
        proof (cases "sig1 = Continue")
          case True
          with o1 have s1: "steady st1" by (simp add: outcome_def)
          show ?thesis
          proof (cases "rule2 u v f")
            case r2: True
            with res True have "revealLoop env ns st1 = (sig, st')" by simp
            from revealLoop_outcome [OF this s1] show ?thesis .
          next
            case r2: False
            with res True s1 show ?thesis by (simp add: outcome_def)
          qed
        next
          case False
          with res have "sig = sig1" "st' = st1" by (cases sig1; simp)+
          with o1 show ?thesis by simp
        qed
      qed
    qed
  qed
qed

lemma scan_outcome:
  assumes "scan env row col st = Some (sig, st')" and "steady st"
  shows "outcome sig st'"
proof -
  have "steady st \<longrightarrow> outcome (fst y) (snd y)" if "scan env row col st = Some y" for y
    using that
  proof (induction env row col st y rule: scan.raw_induct [rotated 1, consumes 1])
    case (1 scan' env row col st y)
    show ?case
    proof
      assume s: "steady st"
      show "outcome (fst y) (snd y)"
      proof (cases "row < height st")
        case False
        with 1(2) s show ?thesis by (auto simp: outcome_def)
      next
        case row: True
        show ?thesis
        proof (cases "col < width st")
          case False
          with 1(2) row have "scan' env (row + 1) 0 st = Some y" by simp
          from 1(1) [OF this] s show ?thesis by simp
        next
          case col: True
          obtain sig1 st1 where cell: "solveCell env row col st = (sig1, st1)"
            by (cases "solveCell env row col st")
          from solveCell_outcome [OF cell s] have o1: "outcome sig1 st1" .
          show ?thesis
          proof (cases "sig1 = Continue")
            case True
            with 1(2) row col cell have "scan' env row (col + 1) st1 = Some y" by simp
            moreover from o1 True have "steady st1" by (simp add: outcome_def)
            ultimately show ?thesis using 1(1) by blast
          next
            case False
            with 1(2) row col cell have "y = (sig1, st1)" by (cases sig1; simp)
            with o1 show ?thesis by simp
          qed
        qed
      qed
    qed
  qed
  from this [OF assms(1)] assms(2) show ?thesis by simp
qed

lemma hasRevealedNeighbor_error: "hasRevealedNeighbor b ps = Inl e \<Longrightarrow> e = TypeError"
proof (induction ps)
  case Nil
  then show ?case by simp
next
  case (Cons p ps)
  obtain nr nc where p: "p = (nr, nc)" by (cases p)
  from Cons.prems show ?case
    unfolding p using Cons.IH by (auto split: option.splits if_splits)
qed

lemma collectCandidates_error: "collectCandidates b w h ps cands = Inl e \<Longrightarrow> e = TypeError"
proof (induction ps arbitrary: cands)
  case Nil
  then show ?case by simp
next
  case (Cons p ps)
  obtain row col where p: "p = (row, col)" by (cases p)
  from Cons.prems show ?case
    unfolding p using Cons.IH hasRevealedNeighbor_error [of b "neighborsOf w h row col" e]
    by (auto split: option.splits if_splits sum.splits)
qed

lemma randomMove_outcome:
  assumes "randomMove env st = (sig, st')" and "steady st"
  shows "outcome sig st'"
proof (cases "candidates (board st) (width st) (height st)")
  case (Inl e)
  then have "e = TypeError" unfolding candidates_def by (rule collectCandidates_error)
  with assms Inl show ?thesis by (auto simp: randomMove_def outcome_def steady_def)
next
  case (Inr cands)
  show ?thesis
  proof (cases "length cands > 0")
    case False
    with assms Inr show ?thesis by (auto simp: randomMove_def outcome_def)
  next
    case True
    obtain i w1 where rnd: "randomIndex env (world st) (length cands) = (i, w1)"
      by (cases "randomIndex env (world st) (length cands)")
    show ?thesis
    proof (cases "i < length cands")
      case False
      with assms Inr True rnd show ?thesis
        by (auto simp: randomMove_def outcome_def steady_def)
    next
      case i: True
      obtain row col where rc: "cands ! i = (row, col)" by (cases "cands ! i")
      obtain r w2 where click: "clickCell env w1 row col False = (r, w2)"
        by (cases "clickCell env w1 row col False")
      show ?thesis
      proof (cases r)
        case (Some e)
        with assms Inr True rnd i rc click show ?thesis
          by (auto simp: randomMove_def outcome_def steady_def interrupted_single)
      next
        case None
        obtain snap w3 where g: "getBoardState env w2 = (snap, w3)"
          by (cases "getBoardState env w2")
        show ?thesis
        proof (cases snap)
          case (Inl e)
          with assms Inr True rnd i rc click None g show ?thesis
            by (auto simp: randomMove_def outcome_def steady_def interrupted_single)
        next
          case snap: (Inr ns)
          with assms Inr True rnd i rc click None g show ?thesis
            by (cases "gameOver ns")
              (auto simp: randomMove_def outcome_def steady_def interrupted_single)
        qed
      qed
    qed
  qed
qed

text \<open>The random move happens in the world that \<open>Math.random\<close> leaves, and its entry
  in the log is what that world gave.\<close>

lemma randomMove_genuine:
  assumes "randomMove env st = (sig, st')"
  shows "\<exists>new w0. trace st' = trace st @ new \<and>
           (w0 = world st \<or> (\<exists>n. w0 = snd (randomIndex env (world st) n))) \<and>
           genuine env w0 new (world st')"
proof (cases "candidates (board st) (width st) (height st)")
  case (Inl e)
  with assms have "st' = st" by (auto simp: randomMove_def)
  then have "trace st' = trace st @ [] \<and> genuine env (world st) [] (world st')" by simp
  then show ?thesis by blast
next
  case (Inr cands)
  show ?thesis
  proof (cases "length cands > 0")
    case False
    with assms Inr have "st' = st" by (auto simp: randomMove_def)
    then have "trace st' = trace st @ [] \<and> genuine env (world st) [] (world st')" by simp
    then show ?thesis by blast
  next
    case True
    obtain i w1 where rnd: "randomIndex env (world st) (length cands) = (i, w1)"
      by (cases "randomIndex env (world st) (length cands)")
    then have w1: "w1 = snd (randomIndex env (world st) (length cands))" by simp
    show ?thesis
    proof (cases "i < length cands")
      case False
      with assms Inr True rnd have "st' = st\<lparr>world := w1\<rparr>" by (auto simp: randomMove_def)
      then have "trace st' = trace st @ [] \<and> genuine env w1 [] (world st')" by simp
      with w1 show ?thesis by blast
    next
      case i: True
      obtain row col where rc: "cands ! i = (row, col)" by (cases "cands ! i")
      obtain r w2 where click: "clickCell env w1 row col False = (r, w2)"
        by (cases "clickCell env w1 row col False")
      have "\<exists>snap. trace st' = trace st @ [((row, col, Reveal), snap)] \<and>
              genuine env w1 [((row, col, Reveal), snap)] (world st')"
      proof (cases r)
        case (Some e)
        with assms Inr True rnd i rc click show ?thesis
          by (auto simp: randomMove_def)
      next
        case None
        obtain snap w3 where g: "getBoardState env w2 = (snap, w3)"
          by (cases "getBoardState env w2")
        show ?thesis
        proof (cases snap)
          case (Inl e)
          with assms Inr True rnd i rc click None g show ?thesis
            by (auto simp: randomMove_def)
        next
          case snap: (Inr ns)
          with assms Inr True rnd i rc click None g show ?thesis
            by (cases "gameOver ns") (auto simp: randomMove_def)
        qed
      qed
      with w1 show ?thesis by blast
    qed
  qed
qed

text \<open>The cell of the random move is the candidate at the random index.\<close>

lemma randomMove_pick:
  assumes "candidates (board st) (width st) (height st) = Inr cands"
    and "randomIndex env (world st) (length cands) = (i, w1)" and "i < length cands"
  shows "\<exists>snap. trace (snd (randomMove env st)) = trace st @ [(revealAction (cands ! i), snap)] \<and>
           genuine env w1 [(revealAction (cands ! i), snap)] (world (snd (randomMove env st)))"
proof -
  obtain row col where rc: "cands ! i = (row, col)" by (cases "cands ! i")
  obtain r w2 where click: "clickCell env w1 row col False = (r, w2)"
    by (cases "clickCell env w1 row col False")
  from assms(3) have pos: "length cands > 0" by (cases cands) simp_all
  show ?thesis
  proof (cases r)
    case (Some e)
    with assms pos rc click show ?thesis
      by (simp add: randomMove_def revealAction_def)
  next
    case None
    obtain snap w3 where g: "getBoardState env w2 = (snap, w3)"
      by (cases "getBoardState env w2")
    show ?thesis
    proof (cases snap)
      case (Inl e)
      with assms pos rc click None g show ?thesis
        by (simp add: randomMove_def revealAction_def)
    next
      case (Inr ns)
      with assms pos rc click None g show ?thesis
        by (cases "gameOver ns") (simp_all add: randomMove_def revealAction_def)
    qed
  qed
qed

lemma quiet_no_gameOver: "quiet tr \<Longrightarrow> (a, Inr bs) \<in> set tr \<Longrightarrow> \<not> gameOver bs"
  by (auto simp: quiet_def list_all_iff)

lemma interrupted_last:
  assumes "interrupted sig tr"
  obtains a snap where "tr = butlast tr @ [(a, snap)]"
    and "case snap of Inr bs \<Rightarrow> gameOver bs \<and> sig = Return False | Inl e \<Rightarrow> sig = Throw e"
proof -
  from assms have ne: "tr \<noteq> []" by (simp add: interrupted_def)
  obtain a snap where l: "last tr = (a, snap)" by (cases "last tr")
  from ne l have "tr = butlast tr @ [(a, snap)]" by (metis append_butlast_last_id)
  moreover from assms l
  have "case snap of Inr bs \<Rightarrow> gameOver bs \<and> sig = Return False | Inl e \<Rightarrow> sig = Throw e"
    by (simp add: interrupted_def)
  ultimately show ?thesis using that by blast
qed

lemma steady_initVars: "steady (initVars bs w)"
  by (simp add: steady_def initVars_def)

text \<open>What \<open>solveStep\<close> yields, case by case.\<close>

lemma solveStep_cases:
  assumes "solveStep env w = Some (sig, st)"
  shows "case sig of
           Continue \<Rightarrow> False
         | Return b \<Rightarrow>
             if b then trace st \<noteq> [] \<and> quiet (trace st)
             else trace st = [] \<or> (quiet (butlast (trace st)) \<and> interrupted sig (trace st))
         | Throw e \<Rightarrow>
             (fst (getBoardState env w) = Inl e \<and> trace st = []) \<or>
             (quiet (butlast (trace st)) \<and> interrupted sig (trace st)) \<or>
             (e = TypeError \<and> quiet (trace st))"
proof -
  obtain first w1 where g: "getBoardState env w = (first, w1)"
    by (cases "getBoardState env w")
  show ?thesis
  proof (cases first)
    case (Inl e)
    with assms g show ?thesis by (auto simp: solveStep_def initVars_def)
  next
    case (Inr bs)
    show ?thesis
    proof (cases "gameOver bs")
      case True
      with assms g Inr show ?thesis by (auto simp: solveStep_def initVars_def)
    next
      case False
      with assms g Inr obtain sig1 st1 where
        sc: "scan env 0 0 (initVars bs w1) = Some (sig1, st1)"
        by (auto simp: solveStep_def split: option.splits)
      from scan_outcome [OF sc steady_initVars] have o1: "outcome sig1 st1" .
      from assms g Inr False sc
      have res: "Some (sig, st) =
          (case (sig1, st1) of
             (Continue, st) \<Rightarrow>
               if \<not> actionTaken st
               then (case randomMove env st of
                       (Continue, st1) \<Rightarrow> Some (Return (actionTaken st1), st1)
                     | (sig, st1) \<Rightarrow> Some (sig, st1))
               else Some (Return (actionTaken st), st)
           | (sig, st) \<Rightarrow> Some (sig, st))"
        by (simp add: solveStep_def)
      show ?thesis
      proof (cases sig1)
        case Continue
        with o1 have s1: "steady st1" by (simp add: outcome_def)
        show ?thesis
        proof (cases "actionTaken st1")
          case True
          with res Continue have "sig = Return True" "st = st1" by simp_all
          with s1 True show ?thesis by (simp add: steady_def)
        next
          case noAction: False
          obtain sig2 st2 where rm: "randomMove env st1 = (sig2, st2)"
            by (cases "randomMove env st1")
          from randomMove_outcome [OF rm s1] have o2: "outcome sig2 st2" .
          show ?thesis
          proof (cases sig2)
            case c2: Continue
            with res Continue noAction rm have "sig = Return (actionTaken st2)" "st = st2"
              by simp_all
            with o2 c2 show ?thesis by (auto simp: outcome_def steady_def)
          next
            case (Return b2)
            with res Continue noAction rm have "sig = Return b2" "st = st2" by simp_all
            with o2 Return show ?thesis by (auto simp: outcome_def)
          next
            case (Throw e2)
            with res Continue noAction rm have "sig = Throw e2" "st = st2" by simp_all
            with o2 Throw show ?thesis by (auto simp: outcome_def)
          qed
        qed
      next
        case (Return b1)
        with res have "sig = Return b1" "st = st1" by simp_all
        with o1 Return show ?thesis by (auto simp: outcome_def)
      next
        case (Throw e1)
        with res have "sig = Throw e1" "st = st1" by simp_all
        with o1 Throw show ?thesis by (auto simp: outcome_def)
      qed
    qed
  qed
qed

text \<open>The log of a step is what the world gave, from the world after the first snapshot,
  or, when the scan did nothing, from the world that \<open>Math.random\<close> left after it.\<close>

lemma solveStep_genuine:
  assumes "solveStep env w = Some (sig, st)"
  shows "\<exists>w0. (w0 = snd (getBoardState env w) \<or>
                (\<exists>n. w0 = snd (randomIndex env (snd (getBoardState env w)) n))) \<and>
              genuine env w0 (trace st) (world st)"
proof -
  obtain first w1 where g: "getBoardState env w = (first, w1)"
    by (cases "getBoardState env w")
  have here: ?thesis if "genuine env w1 (trace st) (world st)"
    using that g by auto
  show ?thesis
  proof (cases first)
    case (Inl e)
    with assms g have "st = initVars \<lparr>board = [], width = 0, height = 0, gameOver = False\<rparr> w1"
      by (auto simp: solveStep_def)
    then show ?thesis by (intro here) (simp add: initVars_def)
  next
    case (Inr bs)
    show ?thesis
    proof (cases "gameOver bs")
      case True
      with assms g Inr have "st = initVars bs w1" by (auto simp: solveStep_def)
      then show ?thesis by (intro here) (simp add: initVars_def)
    next
      case False
      with assms g Inr obtain sig1 st1 where
        sc: "scan env 0 0 (initVars bs w1) = Some (sig1, st1)"
        by (auto simp: solveStep_def split: option.splits)
      from scan_logged [OF sc] obtain new where
        "trace st1 = trace (initVars bs w1) @ new"
        "genuine env (world (initVars bs w1)) new (world st1)"
        by (auto simp: logged_def)
      then have g1: "genuine env w1 (trace st1) (world st1)" by (simp add: initVars_def)
      from scan_outcome [OF sc steady_initVars] have o1: "outcome sig1 st1" .
      from assms g Inr False sc
      have res: "Some (sig, st) =
          (case (sig1, st1) of
             (Continue, st) \<Rightarrow>
               if \<not> actionTaken st
               then (case randomMove env st of
                       (Continue, st1) \<Rightarrow> Some (Return (actionTaken st1), st1)
                     | (sig, st1) \<Rightarrow> Some (sig, st1))
               else Some (Return (actionTaken st), st)
           | (sig, st) \<Rightarrow> Some (sig, st))"
        by (simp add: solveStep_def)
      show ?thesis
      proof (cases "sig1 = Continue \<and> \<not> actionTaken st1")
        case False
        with res have "st = st1" by (cases sig1) (auto split: if_splits)
        with g1 show ?thesis by (intro here) simp
      next
        case True
        with o1 have empty: "trace st1 = []" by (simp add: outcome_def steady_def)
        with g1 have world1: "world st1 = w1" by simp
        obtain sig2 st2 where rm: "randomMove env st1 = (sig2, st2)"
          by (cases "randomMove env st1")
        with res True have "st = st2" by (cases sig2) simp_all
        with randomMove_genuine [OF rm] empty world1 g show ?thesis by auto
      qed
    qed
  qed
qed

lemma stepD_eval:
  "(case solveStep envD pageD of
      None \<Rightarrow> False
    | Some (sig, st) \<Rightarrow>
        sig = Return True \<and>
        map fst (trace st) = [(0, 1, Reveal), (1, 1, Reveal), (2, 0, Reveal), (2, 1, Reveal)] \<and>
        quiet (trace st) \<and>
        (case snd (trace st ! 2) of Inr bs \<Rightarrow> revealedAt (board bs) (2, 1) | Inl e \<Rightarrow> False) \<and>
        \<not> revealedAt (board (startOf envD pageD)) (2, 1))"
  by code_simp

lemma stepD:
  obtains st bs where "solveStep envD pageD = Some (Return True, st)"
    and "map fst (trace st) = [(0, 1, Reveal), (1, 1, Reveal), (2, 0, Reveal), (2, 1, Reveal)]"
    and "quiet (trace st)"
    and "snd (trace st ! 2) = Inr bs" and "revealedAt (board bs) (2, 1)"
    and "\<not> revealedAt (board (startOf envD pageD)) (2, 1)"
proof (cases "solveStep envD pageD")
  case None
  with stepD_eval show ?thesis by simp
next
  case (Some r)
  obtain sig st where r: "r = (sig, st)" by (cases r)
  from stepD_eval Some r have
    h: "sig = Return True"
       "map fst (trace st) = [(0, 1, Reveal), (1, 1, Reveal), (2, 0, Reveal), (2, 1, Reveal)]"
       "quiet (trace st)"
       "case snd (trace st ! 2) of Inr bs \<Rightarrow> revealedAt (board bs) (2, 1) | Inl e \<Rightarrow> False"
       "\<not> revealedAt (board (startOf envD pageD)) (2, 1)"
    by simp_all
  from h(4) obtain bs where "snd (trace st ! 2) = Inr bs" "revealedAt (board bs) (2, 1)"
    by (cases "snd (trace st ! 2)") simp_all
  with Some r h that show ?thesis by simp
qed

section \<open>Rule 2 does not look at the board again\<close>




section \<open>Candidates of the random move\<close>

lemma hasRevealedNeighbor_spec:
  "\<forall>p \<in> set ps. cellAt b (fst p) (snd p) \<noteq> None \<Longrightarrow>
   hasRevealedNeighbor b ps = Inr (\<exists>p \<in> set ps. revealedAt b p)"
proof (induction ps)
  case Nil
  then show ?case by simp
next
  case (Cons p ps)
  obtain nr nc where p: "p = (nr, nc)" by (cases p)
  from Cons.prems p obtain c where c: "cellAt b nr nc = Some c" by auto
  from Cons.prems have rest: "\<forall>p \<in> set ps. cellAt b (fst p) (snd p) \<noteq> None" by simp
  show ?case
    unfolding p using c Cons.IH [OF rest]
    by (simp add: revealedAt_def)
qed

lemma collectCandidates_spec:
  assumes "wellFormed st"
  shows "\<forall>p \<in> set ps. inBounds (width st) (height st) (fst p) (snd p) \<Longrightarrow>
         collectCandidates (board st) (width st) (height st) ps cands =
           Inr (cands @ filter (isCandidate st) ps)"
proof (induction ps arbitrary: cands)
  case Nil
  then show ?case by simp
next
  case (Cons p ps)
  obtain row col where p: "p = (row, col)" by (cases p)
  from Cons.prems p have "inBounds (width st) (height st) row col" by simp
  from cellAt_wellFormed [OF assms this] obtain c where c: "cellAt (board st) row col = Some c"
    by blast
  have "\<forall>q \<in> set (neighborsOf (width st) (height st) row col).
          cellAt (board st) (fst q) (snd q) \<noteq> None"
    using cellAt_neighbor [OF assms] by blast
  from hasRevealedNeighbor_spec [OF this]
  have h: "hasRevealedNeighbor (board st) (neighborsOf (width st) (height st) row col) =
             Inr (\<exists>q \<in> set (neighborsOf (width st) (height st) row col). revealedAt (board st) q)" .
  from Cons.prems have rest: "\<forall>p \<in> set ps. inBounds (width st) (height st) (fst p) (snd p)"
    by simp
  show ?case
    unfolding p using c h Cons.IH [OF rest]
    by (simp add: isCandidate_def unopenedAt_def)
qed

lemma positions_set: "set (positions w h) = {p. inBounds w h (fst p) (snd p)}"
  by (auto simp: positions_def inBounds_def)

lemma positions_product: "positions w h = List.product [0..h - 1] [0..w - 1]"
  by (simp add: positions_def product_concat_map)

lemma positions_distinct: "distinct (positions w h)"
  unfolding positions_product by (rule distinct_product) simp_all

lemma candidates_spec:
  assumes "wellFormed st"
  shows "candidates (board st) (width st) (height st) =
           Inr (filter (isCandidate st) (positions (width st) (height st)))"
proof -
  have "\<forall>p \<in> set (positions (width st) (height st)).
          inBounds (width st) (height st) (fst p) (snd p)"
    by (simp add: positions_set)
  from collectCandidates_spec [OF assms this, of "[]"] show ?thesis
    by (simp add: candidates_def)
qed

text \<open>
  C6. On every board of a snapshot the candidates of rule 3 are exactly the cells of the
  board that are neither revealed nor flagged and have at least one revealed neighbour,
  each once. When there is no such cell the list is empty, and the random move does
  nothing: no click, and \<open>solveStep\<close> goes on to return \<open>actionTaken\<close>. The random move
  clicks at most one cell, and that cell is a candidate.
\<close>

theorem candidates_are_frontier_cells:
  assumes "wellFormed st"
  shows "\<exists>cands. candidates (board st) (width st) (height st) = Inr cands \<and>
           distinct cands \<and>
           set cands = {p. inBounds (width st) (height st) (fst p) (snd p) \<and>
                           \<not> revealedAt (board st) p \<and> \<not> flaggedAt (board st) p \<and>
                           (\<exists>q \<in> set (neighborsOf (width st) (height st) (fst p) (snd p)).
                              revealedAt (board st) q)} \<and>
           (cands = [] \<longrightarrow> randomMove env st = (Continue, st)) \<and>
           (\<exists>new. trace (snd (randomMove env st)) = trace st @ new \<and> length new \<le> 1 \<and>
                  (\<forall>a \<in> set (map fst new). \<exists>p \<in> set cands. a = revealAction p))"
proof -
  let ?cands = "filter (isCandidate st) (positions (width st) (height st))"
  have c: "candidates (board st) (width st) (height st) = Inr ?cands"
    by (rule candidates_spec [OF assms])
  have d: "distinct ?cands" by (simp add: positions_distinct)
  have open_iff: "unopenedAt (board st) p \<longleftrightarrow>
      \<not> revealedAt (board st) p \<and> \<not> flaggedAt (board st) p"
    if "inBounds (width st) (height st) (fst p) (snd p)" for p
    using cellAt_wellFormed [OF assms that]
    by (auto simp: unopenedAt_def revealedAt_def flaggedAt_def)
  have s: "set ?cands = {p. inBounds (width st) (height st) (fst p) (snd p) \<and>
                           \<not> revealedAt (board st) p \<and> \<not> flaggedAt (board st) p \<and>
                           (\<exists>q \<in> set (neighborsOf (width st) (height st) (fst p) (snd p)).
                              revealedAt (board st) q)}"
    using open_iff by (auto simp: positions_set isCandidate_def)
  have e: "?cands = [] \<longrightarrow> randomMove env st = (Continue, st)"
    by (simp add: randomMove_def c)
  have t: "\<exists>new. trace (snd (randomMove env st)) = trace st @ new \<and> length new \<le> 1 \<and>
                  (\<forall>a \<in> set (map fst new). \<exists>p \<in> set ?cands. a = revealAction p)"
  proof (cases "length ?cands > 0")
    case False
    then show ?thesis by (simp add: randomMove_def c)
  next
    case True
    obtain i w1 where rnd: "randomIndex env (world st) (length ?cands) = (i, w1)"
      by (cases "randomIndex env (world st) (length ?cands)")
    show ?thesis
    proof (cases "i < length ?cands")
      case False
      with True rnd show ?thesis by (simp add: randomMove_def c)
    next
      case i: True
      from i have mem: "?cands ! i \<in> set ?cands" by (rule nth_mem)
      from randomMove_pick [OF c rnd i] obtain snap where
        "trace (snd (randomMove env st)) = trace st @ [(revealAction (?cands ! i), snap)]"
        by blast
      moreover from mem
      have "\<exists>p \<in> set ?cands. revealAction (?cands ! i) = revealAction p"
        by (rule bexI [rotated]) simp
      ultimately show ?thesis by simp
    qed
  qed
  from c d s e t show ?thesis by blast
qed

theorem candidates_are_frontier_cells_witness:
  "wellFormed (startOf envD pageD) \<and>
   candidates (board (startOf envD pageD)) 2 3 = Inr [(0, 1), (1, 1), (2, 0), (2, 1)] \<and>
   \<not> revealedAt (board (startOf envD pageD)) (1, 1) \<and>
   \<not> flaggedAt (board (startOf envD pageD)) (1, 1) \<and>
   wellFormed (startOf envFlags pageOver) \<and>
   candidates (board (startOf envFlags pageOver)) 2 2 = Inr [(1, 0)]"
proof -
  let ?st = "startOf envD pageD"
  have wf: "wellFormed ?st" by code_simp
  have c: "candidates (board ?st) (width ?st) (height ?st) = Inr [(0, 1), (1, 1), (2, 0), (2, 1)]"
    by code_simp
  have w: "width ?st = 2" and h: "height ?st = 3"
    by code_simp+
  have wf': "wellFormed (startOf envFlags pageOver)" by code_simp
  have c': "candidates (board (startOf envFlags pageOver)) 2 2 = Inr [(1, 0)]" by code_simp
  from candidates_are_frontier_cells [OF wf, of envD] c
  have "set [(0, 1), (1, 1), (2, 0), (2, 1)] =
          {p. inBounds (width ?st) (height ?st) (fst p) (snd p) \<and>
              \<not> revealedAt (board ?st) p \<and> \<not> flaggedAt (board ?st) p \<and>
              (\<exists>q \<in> set (neighborsOf (width ?st) (height ?st) (fst p) (snd p)).
                 revealedAt (board ?st) q)}"
    by auto
  moreover have "(1, 1) \<in> set [(0 :: int, 1 :: int), (1, 1), (2, 0), (2, 1)]" by simp
  ultimately have "(1, 1) \<in> {p. inBounds (width ?st) (height ?st) (fst p) (snd p) \<and>
              \<not> revealedAt (board ?st) p \<and> \<not> flaggedAt (board ?st) p \<and>
              (\<exists>q \<in> set (neighborsOf (width ?st) (height ?st) (fst p) (snd p)).
                 revealedAt (board ?st) q)}"
    by blast
  then have "\<not> revealedAt (board ?st) (1, 1)" "\<not> flaggedAt (board ?st) (1, 1)" by simp_all
  with wf c w h wf' c' show ?thesis by simp
qed

section \<open>Scenario A\<close>

lemma scenarioA_scan:
  "scan env 0 0 (initVars scenarioA w1) = Some (Continue, initVars scenarioA w1)"
  by (simp add: scan.simps solveCell_def cellAt_def initVars_def scenarioA_def emptyCell_def
      zeroCell_def)

lemma scenarioA_candidates: "candidates (board scenarioA) 3 3 = Inr ringA"
  by code_simp


text \<open>
  C3, as amended. On the board of scenario A the scan over the cells applies no action:
  the centre is skipped because its value is 0 (line 215) and the other cells because
  they are not revealed. The step then takes the eight cells around the centre as the
  candidates of rule 3, in the order of rows and columns, and applies one action: the
  Reveal of the candidate at the random index, a real click in the world that
  \<open>Math.random\<close> left, followed by a real snapshot. (An index that is not below 8
  would make the step throw a \<open>TypeError\<close> without an action.)
\<close>

theorem scenario_A_one_random_reveal:
  assumes "getBoardState env w = (Inr scenarioA, w1)"
  shows "scan env 0 0 (initVars scenarioA w1) = Some (Continue, initVars scenarioA w1) \<and>
         trace (initVars scenarioA w1) = [] \<and>
         candidates (board scenarioA) (width scenarioA) (height scenarioA) = Inr ringA \<and>
         (\<exists>sig st. solveStep env w = Some (sig, st) \<and>
            (if fst (randomIndex env w1 8) < 8
             then map fst (trace st) = [revealAction (ringA ! fst (randomIndex env w1 8))] \<and>
                  genuine env (snd (randomIndex env w1 8)) (trace st) (world st)
             else trace st = [] \<and> sig = Throw TypeError))"
proof -
  let ?st = "initVars scenarioA w1"
  have sc: "scan env 0 0 ?st = Some (Continue, ?st)" by (rule scenarioA_scan)
  have tr: "trace ?st = []" by (simp add: initVars_def)
  have wh: "width scenarioA = 3" "height scenarioA = 3" "\<not> gameOver scenarioA"
    by (simp_all add: scenarioA_def)
  have c: "candidates (board scenarioA) (width scenarioA) (height scenarioA) = Inr ringA"
    using scenarioA_candidates by (simp add: wh)
  have c': "candidates (board ?st) (width ?st) (height ?st) = Inr ringA"
    using c by (simp add: initVars_def)
  have len: "length ringA = 8" by (simp add: ringA_def)
  have na: "\<not> actionTaken ?st" by (simp add: initVars_def)
  have step: "solveStep env w =
      (case randomMove env ?st of
         (Continue, st1) \<Rightarrow> Some (Return (actionTaken st1), st1)
       | (sig, st1) \<Rightarrow> Some (sig, st1))"
    using assms wh sc na by (simp add: solveStep_def)
  obtain i w2 where rnd: "randomIndex env w1 8 = (i, w2)"
    by (cases "randomIndex env w1 8")
  have w: "world ?st = w1" by (simp add: initVars_def)
  from rnd w len have rnd': "randomIndex env (world ?st) (length ringA) = (i, w2)" by simp
  have "\<exists>sig st. solveStep env w = Some (sig, st) \<and>
            (if i < 8
             then map fst (trace st) = [revealAction (ringA ! i)] \<and>
                  genuine env w2 (trace st) (world st)
             else trace st = [] \<and> sig = Throw TypeError)"
  proof (cases "i < 8")
    case False
    with rnd len w tr have "randomMove env ?st = (Throw TypeError, ?st\<lparr>world := w2\<rparr>)"
      by (simp add: randomMove_def c')
    with step False tr show ?thesis by simp
  next
    case True
    with len have i: "i < length ringA" by simp
    from randomMove_pick [OF c' rnd' i] tr obtain snap where
      t: "trace (snd (randomMove env ?st)) = [(revealAction (ringA ! i), snap)]" and
      g: "genuine env w2 [(revealAction (ringA ! i), snap)] (world (snd (randomMove env ?st)))"
      by auto
    obtain sig2 st2 where rm: "randomMove env ?st = (sig2, st2)"
      by (cases "randomMove env ?st")
    with step obtain sig where "solveStep env w = Some (sig, st2)"
      by (cases sig2) simp_all
    moreover from rm t g have "map fst (trace st2) = [revealAction (ringA ! i)]"
      "genuine env w2 (trace st2) (world st2)"
      by simp_all
    ultimately show ?thesis using True by auto
  qed
  then have "\<exists>sig st. solveStep env w = Some (sig, st) \<and>
            (if fst (randomIndex env w1 8) < 8
             then map fst (trace st) = [revealAction (ringA ! fst (randomIndex env w1 8))] \<and>
                  genuine env (snd (randomIndex env w1 8)) (trace st) (world st)
             else trace st = [] \<and> sig = Throw TypeError)"
    by (simp only: rnd fst_conv snd_conv)
  with sc tr c show ?thesis by (intro conjI)
qed

text \<open>A page that shows the board of scenario A, in a world where the random index is 7:
  the step reveals \<open>(2, 2)\<close>, the last of the eight.\<close>

theorem scenario_A_one_random_reveal_witness:
  "getBoardState envSeven pageE = (Inr scenarioA, pageE) \<and>
   randomIndex envSeven pageE 8 = (7, pageE) \<and>
   ringA ! 7 = (2, 2) \<and>
   (\<exists>sig st. solveStep envSeven pageE = Some (sig, st) \<and>
      map fst (trace st) = [(2, 2, Reveal)] \<and>
      genuine envSeven pageE (trace st) (world st))"
proof -
  have g: "getBoardState envSeven pageE = (Inr scenarioA, pageE)" by code_simp
  have r: "randomIndex envSeven pageE 8 = (7, pageE)" by code_simp
  have p: "ringA ! 7 = (2, 2)" by code_simp
  from scenario_A_one_random_reveal [OF g]
  have "\<exists>sig st. solveStep envSeven pageE = Some (sig, st) \<and>
      map fst (trace st) = [(2, 2, Reveal)] \<and>
      genuine envSeven pageE (trace st) (world st)"
    unfolding r by (simp add: p revealAction_def)
  with g r p show ?thesis by (intro conjI)
qed

text \<open>
  C3 as stated has the engine emit 8 Reveal actions. On a page that shows the board of
  scenario A the step applies a single action, the Reveal of the candidate the random
  index picks.
\<close>

theorem scenario_A_counterexample:
  "fst (getBoardState envOpens pageE) = Inr scenarioA \<and>
   solveStep envOpens pageE \<noteq> None \<and>
   fst (the (solveStep envOpens pageE)) = Return True \<and>
   map fst (trace (snd (the (solveStep envOpens pageE)))) = [(0, 0, Reveal)] \<and>
   length (trace (snd (the (solveStep envOpens pageE)))) \<noteq> 8"
  by code_simp

section \<open>The scan ends when the board keeps its size\<close>

lemma fixedSize_keepsSize: "fixedSize env w h \<Longrightarrow> keepsSize env UNIV w h"
  by (simp add: fixedSize_def keepsSize_def)

lemma keepsSize_click:
  "keepsSize env S w h \<Longrightarrow> x \<in> S \<Longrightarrow> clickCell env x row col isRightClick = (r, x') \<Longrightarrow> x' \<in> S"
  unfolding keepsSize_def by (metis snd_conv)

lemma keepsSize_snapshot:
  assumes "keepsSize env S w h" and "x \<in> S" and "getBoardState env x = (snap, x')"
  shows "x' \<in> S \<and> (\<forall>bs. snap = Inr bs \<longrightarrow> width bs = w \<and> height bs = h)"
proof -
  from assms(3) have "x' = delay env 1000 x" "fst (getBoardState env x) = snap"
    using getBoardState_world [of env x] by simp_all
  with assms(1,2) show ?thesis unfolding keepsSize_def by blast
qed

lemma keepsSize_random:
  "keepsSize env S w h \<Longrightarrow> x \<in> S \<Longrightarrow> randomIndex env x n = (i, x') \<Longrightarrow> x' \<in> S"
  unfolding keepsSize_def by (metis snd_conv)

lemma clickAndRefresh_size:
  assumes "clickAndRefresh env nr nc isRightClick st = (sig, st')"
    and "keepsSize env S w h" and "world st \<in> S" and "width st = w" and "height st = h"
  shows "world st' \<in> S \<and> width st' = w \<and> height st' = h"
  using assms(1)
proof (cases rule: clickAndRefresh_cases)
  case (rejected e w1)
  from keepsSize_click [OF assms(2,3) rejected(1)] have "w1 \<in> S" .
  with rejected assms(4,5) show ?thesis by simp
next
  case (unread w1 e w2)
  from keepsSize_click [OF assms(2,3) unread(1)] have "w1 \<in> S" .
  from keepsSize_snapshot [OF assms(2) this unread(2)] have "w2 \<in> S" by simp
  with unread assms(4,5) show ?thesis by simp
next
  case (over w1 bs w2)
  from keepsSize_click [OF assms(2,3) over(1)] have "w1 \<in> S" .
  from keepsSize_snapshot [OF assms(2) this over(2)]
  have "w2 \<in> S" "width bs = w" "height bs = h" by simp_all
  with over show ?thesis by simp
next
  case (goesOn w1 bs w2)
  from keepsSize_click [OF assms(2,3) goesOn(1)] have "w1 \<in> S" .
  from keepsSize_snapshot [OF assms(2) this goesOn(2)]
  have "w2 \<in> S" "width bs = w" "height bs = h" by simp_all
  with goesOn show ?thesis by simp
qed

lemma flagLoop_size:
  "flagLoop env ns st = (sig, st') \<Longrightarrow> keepsSize env S w h \<Longrightarrow> world st \<in> S \<Longrightarrow>
   width st = w \<Longrightarrow> height st = h \<Longrightarrow>
   world st' \<in> S \<and> width st' = w \<and> height st' = h"
proof (induction ns arbitrary: st)
  case Nil
  then show ?case by simp
next
  case (Cons p rest)
  obtain nr nc where p: "p = (nr, nc)" by (cases p)
  show ?case
  proof (cases "cellAt (board st) nr nc")
    case None
    with Cons.prems p show ?thesis by auto
  next
    case (Some c)
    show ?thesis
    proof (cases "flagged c")
      case True
      with Cons p Some show ?thesis by simp
    next
      case False
      obtain sig1 st1 where click: "clickAndRefresh env nr nc True st = (sig1, st1)"
        by (cases "clickAndRefresh env nr nc True st")
      from clickAndRefresh_size [OF click Cons.prems(2-5)]
      have s1: "world st1 \<in> S" "width st1 = w" "height st1 = h" by simp_all
      show ?thesis
      proof (cases "sig1 = Continue")
        case True
        with Cons.prems p Some False click have "flagLoop env rest st1 = (sig, st')" by simp
        from Cons.IH [OF this Cons.prems(2) s1] show ?thesis .
      next
        case stop: False
        with Cons.prems p Some False click have "st' = st1"
          by (cases sig1; simp)
        with s1 show ?thesis by simp
      qed
    qed
  qed
qed

lemma revealLoop_size:
  "revealLoop env ns st = (sig, st') \<Longrightarrow> keepsSize env S w h \<Longrightarrow> world st \<in> S \<Longrightarrow>
   width st = w \<Longrightarrow> height st = h \<Longrightarrow>
   world st' \<in> S \<and> width st' = w \<and> height st' = h"
proof (induction ns arbitrary: st)
  case Nil
  then show ?case by simp
next
  case (Cons p rest)
  obtain nr nc where p: "p = (nr, nc)" by (cases p)
  obtain sig1 st1 where click: "clickAndRefresh env nr nc False st = (sig1, st1)"
    by (cases "clickAndRefresh env nr nc False st")
  from clickAndRefresh_size [OF click Cons.prems(2-5)]
  have s1: "world st1 \<in> S" "width st1 = w" "height st1 = h" by simp_all
  show ?case
  proof (cases "sig1 = Continue")
    case True
    with Cons.prems p click have "revealLoop env rest st1 = (sig, st')" by simp
    from Cons.IH [OF this Cons.prems(2) s1] show ?thesis .
  next
    case stop: False
    with Cons.prems p click have "st' = st1" by (cases sig1; simp)
    with s1 show ?thesis by simp
  qed
qed

lemma solveCell_size:
  assumes "solveCell env row col st = (sig, st')"
    and "keepsSize env S w h" and "world st \<in> S" and "width st = w" and "height st = h"
  shows "world st' \<in> S \<and> width st' = w \<and> height st' = h"
proof (cases "cellAt (board st) row col")
  case None
  with assms show ?thesis by (auto simp: solveCell_def)
next
  case (Some cell)
  show ?thesis
  proof (cases "cvalue cell")
    case None
    with assms Some show ?thesis by (auto simp: solveCell_def)
  next
    case v: (Some v)
    show ?thesis
    proof (cases "\<not> revealed cell \<or> v = Num 0 \<or> v = Num (- 1) \<or> v = Num (- 2)")
      case True
      with assms Some v show ?thesis by (auto simp: solveCell_def)
    next
      case False
      show ?thesis
      proof (cases "countNeighbors (board st) (neighborsOf (width st) (height st) row col)
                      (0, 0, [])")
        case (Inl e)
        with assms Some v False show ?thesis by (auto simp: solveCell_def)
      next
        case (Inr r)
        obtain u f ns where r: "r = (u, f, ns)" by (cases r)
        obtain sig1 st1 where first:
          "(if rule1 u v f then flagLoop env ns st else (Continue, st)) = (sig1, st1)"
          by (cases "if rule1 u v f then flagLoop env ns st else (Continue, st)")
        have s1: "world st1 \<in> S \<and> width st1 = w \<and> height st1 = h"
        proof (cases "rule1 u v f")
          case True
          with first have "flagLoop env ns st = (sig1, st1)" by simp
          from flagLoop_size [OF this assms(2-5)] show ?thesis .
        next
          case False
          with first assms(3-5) show ?thesis by auto
        qed
        from assms(1) Some v False Inr r first
        have res: "(sig, st') =
            (case (sig1, st1) of
               (Continue, st1) \<Rightarrow> if rule2 u v f then revealLoop env ns st1 else (Continue, st1)
             | (sig, st1) \<Rightarrow> (sig, st1))"
          by (simp add: solveCell_def)
        show ?thesis
        proof (cases "sig1 = Continue")
          case True
          show ?thesis
          proof (cases "rule2 u v f")
            case r2: True
            with res True have "revealLoop env ns st1 = (sig, st')" by simp
            from revealLoop_size [OF this assms(2)] s1 show ?thesis by simp
          next
            case r2: False
            with res True s1 show ?thesis by simp
          qed
        next
          case False
          with res have "st' = st1" by (cases sig1; simp)
          with s1 show ?thesis by simp
        qed
      qed
    qed
  qed
qed

lemma scan_done: "\<not> row < height st \<Longrightarrow> scan env row col st = Some (Continue, st)"
  by (subst scan.simps) simp

lemma scan_next_row:
  "row < height st \<Longrightarrow> \<not> col < width st \<Longrightarrow> scan env row col st = scan env (row + 1) 0 st"
  by (subst scan.simps) simp

lemma scan_next_col:
  "row < height st \<Longrightarrow> col < width st \<Longrightarrow> solveCell env row col st = (Continue, st1) \<Longrightarrow>
   scan env row col st = scan env row (col + 1) st1"
  by (subst scan.simps) simp

lemma scan_stop:
  "row < height st \<Longrightarrow> col < width st \<Longrightarrow> solveCell env row col st = (sig, st1) \<Longrightarrow>
   sig \<noteq> Continue \<Longrightarrow> scan env row col st = Some (sig, st1)"
  by (subst scan.simps) (cases sig; simp)

lemma scan_row_returns:
  assumes "keepsSize env S w h"
    and next_row: "row < h \<longrightarrow>
                     (\<forall>st'. world st' \<in> S \<and> width st' = w \<and> height st' = h \<longrightarrow>
                        scan env (row + 1) 0 st' \<noteq> None)"
  shows "world st \<in> S \<Longrightarrow> width st = w \<Longrightarrow> height st = h \<Longrightarrow> scan env row col st \<noteq> None"
proof (induction "nat (w - col)" arbitrary: col st rule: less_induct)
  case less
  show ?case
  proof (cases "row < h")
    case False
    with less.prems have "\<not> row < height st" by simp
    from scan_done [OF this] show ?thesis by simp
  next
    case row: True
    with less.prems have row': "row < height st" by simp
    show ?thesis
    proof (cases "col < w")
      case False
      with less.prems have "\<not> col < width st" by simp
      from this have "scan env row col st = scan env (row + 1) 0 st"
        by (rule scan_next_row [OF row'])
      moreover from next_row row less.prems have "scan env (row + 1) 0 st \<noteq> None" by blast
      ultimately show ?thesis by simp
    next
      case col: True
      with less.prems have col': "col < width st" by simp
      obtain sig1 st1 where cell: "solveCell env row col st = (sig1, st1)"
        by (cases "solveCell env row col st")
      from solveCell_size [OF cell assms(1) less.prems]
      have s1: "world st1 \<in> S" "width st1 = w" "height st1 = h" by simp_all
      show ?thesis
      proof (cases "sig1 = Continue")
        case True
        with cell have "solveCell env row col st = (Continue, st1)" by simp
        from scan_next_col [OF row' col' this]
        have "scan env row col st = scan env row (col + 1) st1" .
        moreover from col have "nat (w - (col + 1)) < nat (w - col)" by simp
        from less.hyps [OF this s1] have "scan env row (col + 1) st1 \<noteq> None" .
        ultimately show ?thesis by simp
      next
        case False
        from scan_stop [OF row' col' cell False] show ?thesis by simp
      qed
    qed
  qed
qed

lemma scan_returns:
  assumes "keepsSize env S w h"
  shows "world st \<in> S \<Longrightarrow> width st = w \<Longrightarrow> height st = h \<Longrightarrow> scan env row col st \<noteq> None"
proof (induction "nat (h - row)" arbitrary: row col st rule: less_induct)
  case less
  have "scan env (row + 1) 0 st' \<noteq> None"
    if "row < h" "world st' \<in> S" "width st' = w" "height st' = h" for st'
  proof -
    from that(1) have "nat (h - (row + 1)) < nat (h - row)" by simp
    from less.hyps [OF this that(2-4)] show ?thesis .
  qed
  then have next_row: "row < h \<longrightarrow>
      (\<forall>st'. world st' \<in> S \<and> width st' = w \<and> height st' = h \<longrightarrow>
         scan env (row + 1) 0 st' \<noteq> None)"
    by blast
  show ?case by (rule scan_row_returns [OF assms next_row less.prems])
qed

lemma solveStep_returns_in:
  assumes "keepsSize env S bw bh" and "w \<in> S"
  shows "solveStep env w \<noteq> None"
proof -
  obtain first w1 where g: "getBoardState env w = (first, w1)"
    by (cases "getBoardState env w")
  show ?thesis
  proof (cases first)
    case (Inl e)
    with g show ?thesis by (simp add: solveStep_def)
  next
    case (Inr bs)
    from keepsSize_snapshot [OF assms g] Inr
    have "w1 \<in> S" "width bs = bw" "height bs = bh" by simp_all
    then have "world (initVars bs w1) \<in> S" "width (initVars bs w1) = bw"
      "height (initVars bs w1) = bh"
      by (simp_all add: initVars_def)
    from scan_returns [OF assms(1) this] obtain r where
      sc: "scan env 0 0 (initVars bs w1) = Some r" by blast
    obtain sig st where r: "r = (sig, st)" by (cases r)
    show ?thesis
    proof (cases "gameOver bs")
      case True
      with g Inr show ?thesis by (simp add: solveStep_def)
    next
      case False
      with g Inr sc r show ?thesis
        by (simp add: solveStep_def split: signal.splits prod.splits)
    qed
  qed
qed

lemma solveStep_returns:
  assumes "fixedSize env bw bh"
  shows "solveStep env w \<noteq> None"
  using fixedSize_keepsSize [OF assms] by (rule solveStep_returns_in) simp

section \<open>Pages whose cells keep their ids\<close>

lemma setClasses_ids [simp]: "map elemId (setClasses ident cls w) = map elemId w"
  by (induction w) (simp_all add: setClasses_def)

lemma fold_setClasses_ids [simp]:
  "map elemId (fold (\<lambda>(ident, cls). setClasses ident cls) table w) = map elemId w"
  by (induction table arbitrary: w) (simp_all split: prod.splits)

lemma readBoard_size:
  assumes "readBoard p (Some elems) = Inr bs"
    and "mapE parseCoords (filter (prefix ''cell_'') (filter (prefix ''cell_'') (map elemId elems))) =
           Inr coords"
  shows "width bs = maxList (map snd coords) + 1 \<and> height bs = maxList (map fst coords) + 1"
proof -
  have "map elemId (filter (\<lambda>e. prefix ''cell_'' (elemId e)) elems) =
          filter (prefix ''cell_'') (map elemId elems)"
    by (simp add: filter_map comp_def)
  with assms show ?thesis
    by (auto simp: readBoard_def Let_def split: sum.splits if_splits)
qed

lemma toyEnv_keepsSize:
  assumes "mapE parseCoords (filter (prefix ''cell_'') (filter (prefix ''cell_'') ids)) = Inr coords"
  shows "keepsSize (toyEnv onRight onLeft) {x. map elemId x = ids}
           (maxList (map snd coords) + 1) (maxList (map fst coords) + 1)"
  unfolding keepsSize_def
proof (intro ballI conjI allI impI)
  fix x :: "Element list"
  assume x: "x \<in> {x. map elemId x = ids}"
  then show "delay (toyEnv onRight onLeft) 1000 x \<in> {x. map elemId x = ids}"
    by (simp add: toyEnv_def)
  from x show "snd (clickCell (toyEnv onRight onLeft) x row col isRightClick) \<in>
                 {x. map elemId x = ids}"
    for row col isRightClick
    by (simp add: toyEnv_def)
  from x show "snd (randomIndex (toyEnv onRight onLeft) x n) \<in> {x. map elemId x = ids}" for n
    by (simp add: toyEnv_def)
  fix bs
  assume "fst (getBoardState (toyEnv onRight onLeft) x) = Inr bs"
  then obtain raw where raw: "readBoard parseIntDec (Some x) = Inr raw" and bs: "bs = byValue raw"
    by (auto simp: getBoardState_def toyEnv_def split: sum.splits)
  from x assms have "mapE parseCoords
      (filter (prefix ''cell_'') (filter (prefix ''cell_'') (map elemId x))) = Inr coords"
    by simp
  from readBoard_size [OF raw this] bs
  show "width bs = maxList (map snd coords) + 1" "height bs = maxList (map fst coords) + 1"
    by simp_all
qed

lemma envD_keepsSize: "keepsSize envD {x. map elemId x = map elemId pageD} 2 3"
proof -
  have "mapE parseCoords (filter (prefix ''cell_'') (filter (prefix ''cell_'') (map elemId pageD))) =
          Inr [(0, 0), (0, 1), (1, 0), (1, 1), (2, 0), (2, 1)]"
    by code_simp
  from toyEnv_keepsSize [OF this, of setsFlag opensD] show ?thesis
    by (simp add: envD_def)
qed

section \<open>The boolean of a step\<close>

lemma stepB_eval:
  "(case solveStep envRightClickOpens pageB of
      None \<Rightarrow> False
    | Some (sig, st) \<Rightarrow> sig = Return False \<and> map fst (trace st) = [(0, 1, Flag)])"
  by code_simp

lemma stepRejected_eval:
  "(case solveStep envRejects pageC of
      None \<Rightarrow> False
    | Some (sig, st) \<Rightarrow>
        sig = Throw BrowserError \<and> trace st = [((1, 0, Reveal), Inl BrowserError)])"
  by code_simp

text \<open>
  C7. When the first snapshot of a step is game over, \<open>solveStep\<close> returns \<open>false\<close> at
  once: no click, and the world is the one the snapshot left. On a page whose board
  keeps its size the step ends. Whenever it ends, its log is what the world gave: real
  clicks, each followed by a real snapshot unless the click was rejected. When it returns
  a boolean, that is \<open>true\<close> exactly when the step applied at least one action and no
  snapshot taken after an action was game over; and over all the ways a step can end, it
  returns \<open>true\<close> exactly when there was at least one click, every click was followed
  by a snapshot that was read and is not game over, and no \<open>TypeError\<close> was thrown. A
  game-over snapshot always makes the result \<open>false\<close>, and so does a step that finds
  neither a certain move nor a candidate. What \<open>solveStep\<close> throws is the failure of
  the first snapshot, the rejection of its latest click or the failure of the snapshot
  after it, or a \<open>TypeError\<close>: never one of the two ends of the game.
\<close>

theorem solveStep_reports_by_boolean:
  "(\<forall>bs w1. getBoardState env w = (Inr bs, w1) \<and> gameOver bs \<longrightarrow>
      solveStep env w = Some (Return False, initVars bs w1) \<and> trace (initVars bs w1) = [] \<and>
      world (initVars bs w1) = w1) \<and>
   (\<forall>S bw bh. keepsSize env S bw bh \<and> w \<in> S \<longrightarrow> (\<exists>sig st. solveStep env w = Some (sig, st))) \<and>
   (\<forall>sig st. solveStep env w = Some (sig, st) \<longrightarrow>
      sig \<noteq> Continue \<and>
      (\<exists>w0. (w0 = snd (getBoardState env w) \<or>
              (\<exists>n. w0 = snd (randomIndex env (snd (getBoardState env w)) n))) \<and>
             genuine env w0 (trace st) (world st)) \<and>
      (sig = Return True \<longleftrightarrow> trace st \<noteq> [] \<and> quiet (trace st) \<and> sig \<noteq> Throw TypeError)) \<and>
   (\<forall>b st. solveStep env w = Some (Return b, st) \<longrightarrow>
      (b \<longleftrightarrow> trace st \<noteq> [] \<and> (\<forall>a bs. (a, Inr bs) \<in> set (trace st) \<longrightarrow> \<not> gameOver bs))) \<and>
   (\<forall>sig st a bs. solveStep env w = Some (sig, st) \<and> (a, Inr bs) \<in> set (trace st) \<and>
      gameOver bs \<longrightarrow> sig = Return False) \<and>
   (\<forall>bs w1 st1. getBoardState env w = (Inr bs, w1) \<and> \<not> gameOver bs \<and>
      scan env 0 0 (initVars bs w1) = Some (Continue, st1) \<and> \<not> actionTaken st1 \<and>
      candidates (board st1) (width st1) (height st1) = Inr [] \<longrightarrow>
      solveStep env w = Some (Return False, st1)) \<and>
   (\<forall>e st. solveStep env w = Some (Throw e, st) \<longrightarrow>
      (fst (getBoardState env w) = Inl e \<and> trace st = []) \<or>
      (trace st \<noteq> [] \<and> snd (last (trace st)) = Inl e) \<or> e = TypeError)"
proof (intro conjI allI impI)
  fix bs w1
  assume "getBoardState env w = (Inr bs, w1) \<and> gameOver bs"
  then show "solveStep env w = Some (Return False, initVars bs w1)"
    by (simp add: solveStep_def)
  show "trace (initVars bs w1) = []" by (simp add: initVars_def)
  show "world (initVars bs w1) = w1" by (simp add: initVars_def)
next
  fix S bw bh
  assume "keepsSize env S bw bh \<and> w \<in> S"
  then have "solveStep env w \<noteq> None" using solveStep_returns_in [of env S bw bh w] by simp
  then show "\<exists>sig st. solveStep env w = Some (sig, st)" by auto
next
  fix sig st
  assume run: "solveStep env w = Some (sig, st)"
  from solveStep_cases [OF run] show "sig \<noteq> Continue" by auto
  from solveStep_genuine [OF run]
  show "\<exists>w0. (w0 = snd (getBoardState env w) \<or>
              (\<exists>n. w0 = snd (randomIndex env (snd (getBoardState env w)) n))) \<and>
             genuine env w0 (trace st) (world st)" .
  have notQuiet: "\<not> quiet tr" if "interrupted s tr" for s tr
  proof -
    from that obtain a snap where t: "tr = butlast tr @ [(a, snap)]"
      and s: "case snap of Inr bs \<Rightarrow> gameOver bs \<and> s = Return False | Inl e \<Rightarrow> s = Throw e"
      by (rule interrupted_last)
    from s have "\<not> quiet [(a, snap)]" by (cases snap) simp_all
    then have "\<not> quiet (butlast tr @ [(a, snap)])" by (simp only: quiet_append) simp
    with t show ?thesis by simp
  qed
  show "sig = Return True \<longleftrightarrow> trace st \<noteq> [] \<and> quiet (trace st) \<and> sig \<noteq> Throw TypeError"
  proof (cases sig)
    case Continue
    with solveStep_cases [OF run] show ?thesis by simp
  next
    case (Return b)
    with solveStep_cases [OF run] notQuiet [of sig "trace st"] show ?thesis
      by (cases b) auto
  next
    case (Throw e)
    with solveStep_cases [OF run] notQuiet [of sig "trace st"] show ?thesis by auto
  qed
next
  fix b st
  assume run: "solveStep env w = Some (Return b, st)"
  from solveStep_cases [OF run]
  have c: "if b then trace st \<noteq> [] \<and> quiet (trace st)
           else trace st = [] \<or>
                (quiet (butlast (trace st)) \<and> interrupted (Return b) (trace st))"
    by simp
  show "b \<longleftrightarrow> trace st \<noteq> [] \<and> (\<forall>a bs. (a, Inr bs) \<in> set (trace st) \<longrightarrow> \<not> gameOver bs)"
  proof (cases b)
    case True
    with c show ?thesis using quiet_no_gameOver [of "trace st"] by auto
  next
    case False
    have "\<exists>a bs. (a, Inr bs) \<in> set (trace st) \<and> gameOver bs" if ne: "trace st \<noteq> []"
    proof -
      from c False ne have "interrupted (Return b) (trace st)" by simp
      then obtain a snap where t: "trace st = butlast (trace st) @ [(a, snap)]"
        and s: "case snap of Inr bs \<Rightarrow> gameOver bs \<and> Return b = Return False
                | Inl e \<Rightarrow> Return b = Throw e"
        by (rule interrupted_last)
      from s obtain bs where "snap = Inr bs" "gameOver bs" by (cases snap) auto
      moreover from t have "(a, snap) \<in> set (trace st)"
        by (metis in_set_conv_decomp)
      ultimately show ?thesis by blast
    qed
    with False show ?thesis by blast
  qed
next
  fix sig st a bs
  assume h: "solveStep env w = Some (sig, st) \<and> (a, Inr bs) \<in> set (trace st) \<and> gameOver bs"
  then have run: "solveStep env w = Some (sig, st)" and m: "(a, Inr bs) \<in> set (trace st)"
    and over: "gameOver bs" by simp_all
  from m have ne: "trace st \<noteq> []" by auto
  from m over have nq: "\<not> quiet (trace st)" using quiet_no_gameOver by blast
  have last_case: "sig = Return False"
    if q: "quiet (butlast (trace st))" and i: "interrupted sig (trace st)"
  proof -
    from i obtain a' snap where t: "trace st = butlast (trace st) @ [(a', snap)]"
      and s: "case snap of Inr bs \<Rightarrow> gameOver bs \<and> sig = Return False | Inl e \<Rightarrow> sig = Throw e"
      by (rule interrupted_last)
    from m t have "(a, Inr bs) \<in> set (butlast (trace st)) \<or> (a, Inr bs) = (a', snap)"
      by (metis Un_iff empty_iff empty_set set_ConsD set_append)
    with q over have "snap = Inr bs" using quiet_no_gameOver by blast
    with s show ?thesis by simp
  qed
  from solveStep_cases [OF run] ne nq last_case show "sig = Return False"
    by (cases sig) (auto split: if_splits)
next
  fix bs w1 st1
  assume "getBoardState env w = (Inr bs, w1) \<and> \<not> gameOver bs \<and>
      scan env 0 0 (initVars bs w1) = Some (Continue, st1) \<and> \<not> actionTaken st1 \<and>
      candidates (board st1) (width st1) (height st1) = Inr []"
  then show "solveStep env w = Some (Return False, st1)"
    by (simp add: solveStep_def randomMove_def)
next
  fix e st
  assume run: "solveStep env w = Some (Throw e, st)"
  from solveStep_cases [OF run]
  have "(fst (getBoardState env w) = Inl e \<and> trace st = []) \<or>
        (quiet (butlast (trace st)) \<and> interrupted (Throw e) (trace st)) \<or>
        (e = TypeError \<and> quiet (trace st))"
    by simp
  moreover have "trace st \<noteq> [] \<and> snd (last (trace st)) = Inl e"
    if "interrupted (Throw e) (trace st)"
    using that by (auto simp: interrupted_def split: sum.splits)
  ultimately show "(fst (getBoardState env w) = Inl e \<and> trace st = []) \<or>
      (trace st \<noteq> [] \<and> snd (last (trace st)) = Inl e) \<or> e = TypeError"
    by blast
qed

text \<open>Four steps: on a page that shows a lost game; on \<open>pageD\<close>, whose cells keep their
  ids, where four Reveal actions go well; on \<open>pageB\<close> in the world where the right click
  opens a mine; and on \<open>pageC\<close> with a browser that rejects the click.\<close>

theorem solveStep_reports_by_boolean_witness:
  "gameOver (projr (fst (getBoardState envFlags pageOver))) \<and>
   solveStep envFlags pageOver =
     Some (Return False, initVars (projr (fst (getBoardState envFlags pageOver))) pageOver) \<and>
   keepsSize envD {x. map elemId x = map elemId pageD} 2 3 \<and>
   solveStep envD pageD \<noteq> None \<and>
   fst (the (solveStep envD pageD)) = Return True \<and>
   map fst (trace (snd (the (solveStep envD pageD)))) =
     [(0, 1, Reveal), (1, 1, Reveal), (2, 0, Reveal), (2, 1, Reveal)] \<and>
   trace (snd (the (solveStep envD pageD))) \<noteq> [] \<and>
   quiet (trace (snd (the (solveStep envD pageD)))) \<and>
   genuine envD pageD (trace (snd (the (solveStep envD pageD))))
     (world (snd (the (solveStep envD pageD)))) \<and>
   fst (the (solveStep envRightClickOpens pageB)) = Return False \<and>
   map fst (trace (snd (the (solveStep envRightClickOpens pageB)))) = [(0, 1, Flag)] \<and>
   \<not> quiet (trace (snd (the (solveStep envRightClickOpens pageB)))) \<and>
   fst (the (solveStep envRejects pageC)) = Throw BrowserError \<and>
   snd (last (trace (snd (the (solveStep envRejects pageC))))) = Inl BrowserError"
proof -
  have g: "getBoardState envFlags pageOver =
             (Inr (projr (fst (getBoardState envFlags pageOver))), pageOver)"
    by code_simp
  have over: "gameOver (projr (fst (getBoardState envFlags pageOver)))" by code_simp
  from solveStep_reports_by_boolean [of envFlags pageOver] g over
  have a: "solveStep envFlags pageOver =
     Some (Return False, initVars (projr (fst (getBoardState envFlags pageOver))) pageOver)"
    by blast
  have inS: "pageD \<in> {x. map elemId x = map elemId pageD}" by simp
  from solveStep_reports_by_boolean [of envD pageD] envD_keepsSize inS
  have ends: "solveStep envD pageD \<noteq> None" by blast
  obtain st bs where run: "solveStep envD pageD = Some (Return True, st)"
    and acts: "map fst (trace st) = [(0, 1, Reveal), (1, 1, Reveal), (2, 0, Reveal), (2, 1, Reveal)]"
    and q: "quiet (trace st)"
    and "snd (trace st ! 2) = Inr bs" and "revealedAt (board bs) (2, 1)"
    and "\<not> revealedAt (board (startOf envD pageD)) (2, 1)"
    by (rule stepD)
  from solveStep_reports_by_boolean [of envD pageD] run
  have ne: "trace st \<noteq> []" by blast
  from solveStep_reports_by_boolean [of envD pageD] run
  have "\<exists>w0. (w0 = snd (getBoardState envD pageD) \<or>
              (\<exists>n. w0 = snd (randomIndex envD (snd (getBoardState envD pageD)) n))) \<and>
             genuine envD w0 (trace st) (world st)"
    by blast
  moreover have "snd (getBoardState envD pageD) = pageD"
    "snd (randomIndex envD pageD n) = pageD" for n
    by (simp_all add: envD_def toyEnv_def)
  ultimately have gen: "genuine envD pageD (trace st) (world st)" by auto
  obtain sigB stB where runB: "solveStep envRightClickOpens pageB = Some (sigB, stB)"
    and b: "sigB = Return False" "map fst (trace stB) = [(0, 1, Flag)]"
    using stepB_eval by (auto split: option.splits)
  from solveStep_reports_by_boolean [of envRightClickOpens pageB] runB b
  have nq: "\<not> quiet (trace stB)" by auto
  obtain sigR stR where runR: "solveStep envRejects pageC = Some (sigR, stR)"
    and r: "sigR = Throw BrowserError" "trace stR = [((1, 0, Reveal), Inl BrowserError)]"
    using stepRejected_eval by (auto split: option.splits)
  from over a envD_keepsSize ends run acts ne q gen runB b nq runR r
  show ?thesis by simp
qed

section \<open>The bound of the solving loop\<close>

lemma solvingLoop_results:
  "solvingLoop env n w rs = Some (rs', w') \<Longrightarrow>
   \<exists>new. rs' = rs @ new \<and> length new \<le> n \<and> (\<forall>s \<in> set (butlast new). s = Return True) \<and>
     (length new < n \<longrightarrow> new \<noteq> [] \<and> last new \<noteq> Return True)"
proof (induction n arbitrary: w rs)
  case 0
  then show ?case by simp
next
  case (Suc n)
  from Suc.prems obtain sig st where step: "solveStep env w = Some (sig, st)"
    by (auto split: option.splits)
  show ?case
  proof (cases "sig = Return True")
    case True
    with Suc.prems step
    have "solvingLoop env n (delay env 1000 (world st)) (rs @ [Return True]) = Some (rs', w')"
      by simp
    from Suc.IH [OF this] obtain new where
      n: "rs' = (rs @ [Return True]) @ new" "length new \<le> n"
         "\<forall>s \<in> set (butlast new). s = Return True"
         "length new < n \<longrightarrow> new \<noteq> [] \<and> last new \<noteq> Return True"
      by blast
    let ?new = "Return True # new"
    from n(1) have a: "rs' = rs @ ?new" by simp
    from n(2) have b: "length ?new \<le> Suc n" by simp
    from n(3) have c: "\<forall>s \<in> set (butlast ?new). s = Return True" by auto
    from n(4) have d: "length ?new < Suc n \<longrightarrow> ?new \<noteq> [] \<and> last ?new \<noteq> Return True" by auto
    from a b c d show ?thesis by blast
  next
    case False
    with Suc.prems step have "rs' = rs @ [sig]"
      by (cases sig) (auto split: bool.splits)
    with False show ?thesis by (intro exI [of _ "[sig]"]) simp
  qed
qed

lemma solvingLoop_returns:
  "(\<forall>w. solveStep env w \<noteq> None) \<Longrightarrow> solvingLoop env n w rs \<noteq> None"
proof (induction n arbitrary: w rs)
  case 0
  then show ?case by simp
next
  case (Suc n)
  from Suc.prems obtain sig st where step: "solveStep env w = Some (sig, st)"
    by (metis not_None_eq surj_pair)
  show ?case
  proof (cases "sig = Return True")
    case True
    with step Suc.IH [OF Suc.prems] show ?thesis by simp
  next
    case False
    with step show ?thesis by (cases sig) (auto split: bool.splits)
  qed
qed

text \<open>
  C8. The loop calls \<open>solveStep\<close> at most 100 times: every call but the last returned
  \<open>true\<close>, and when there were fewer than 100 calls the last one did not return \<open>true\<close>
  (it returned \<open>false\<close>, or it threw, which ends the program). The loop ends whenever
  every call of \<open>solveStep\<close> ends, and \<open>solveStep\<close> ends on every page whose board keeps
  its size.
\<close>

theorem mainLoop_bounded:
  "(\<forall>rs w'. mainLoop env w = Some (rs, w') \<longrightarrow>
      length rs \<le> 100 \<and> (\<forall>s \<in> set (butlast rs). s = Return True) \<and>
      (length rs < 100 \<longrightarrow> rs \<noteq> [] \<and> last rs \<noteq> Return True)) \<and>
   ((\<forall>x. solveStep env x \<noteq> None) \<longrightarrow> mainLoop env w \<noteq> None) \<and>
   ((\<exists>bw bh. fixedSize env bw bh) \<longrightarrow> mainLoop env w \<noteq> None)"
proof (intro conjI allI impI)
  fix rs w'
  assume "mainLoop env w = Some (rs, w')"
  then have "solvingLoop env 100 w [] = Some (rs, w')" by (simp add: mainLoop_def)
  from solvingLoop_results [OF this] obtain new where
    n: "rs = [] @ new" "length new \<le> 100" "\<forall>s \<in> set (butlast new). s = Return True"
       "length new < 100 \<longrightarrow> new \<noteq> [] \<and> last new \<noteq> Return True"
    by blast
  from n show "length rs \<le> 100" by simp
  from n show "\<forall>s \<in> set (butlast rs). s = Return True" by simp
  from n show "rs \<noteq> []" if "length rs < 100" using that by simp
  from n show "last rs \<noteq> Return True" if "length rs < 100" using that by simp
next
  assume "\<forall>x. solveStep env x \<noteq> None"
  then show "mainLoop env w \<noteq> None"
    unfolding mainLoop_def by (rule solvingLoop_returns)
next
  assume "\<exists>bw bh. fixedSize env bw bh"
  then obtain bw bh where "fixedSize env bw bh" by blast
  from solveStep_returns [OF this] have "\<forall>x. solveStep env x \<noteq> None" by blast
  then show "mainLoop env w \<noteq> None"
    unfolding mainLoop_def by (rule solvingLoop_returns)
qed

lemma stuckEnv_fixedSize: "fixedSize stuckEnv 2 2"
proof -
  have "width (projr (fst (getBoardState stuckEnv ()))) = 2 \<and>
        height (projr (fst (getBoardState stuckEnv ()))) = 2"
    by code_simp
  then have size: "width (projr (fst (getBoardState stuckEnv ()))) = 2"
    "height (projr (fst (getBoardState stuckEnv ()))) = 2"
    by simp_all
  show ?thesis
    unfolding fixedSize_def
  proof (intro allI impI)
    fix x :: unit and bs
    assume "fst (getBoardState stuckEnv x) = Inr bs"
    then have "projr (fst (getBoardState stuckEnv ())) = bs" by simp
    with size show "width bs = 2 \<and> height bs = 2" by simp
  qed
qed

lemma stuckEnv_step: "\<exists>st. solveStep stuckEnv () = Some (Return True, st)"
proof -
  have "(case solveStep stuckEnv () of Some (sig, st) \<Rightarrow> sig = Return True | None \<Rightarrow> False)"
    by code_simp
  then show ?thesis by (auto split: option.splits)
qed

lemma stuckEnv_loop:
  "solvingLoop stuckEnv n () rs = Some (rs @ replicate n (Return True), ())"
proof (induction n arbitrary: rs)
  case 0
  then show ?case by simp
next
  case (Suc n)
  from stuckEnv_step obtain st where "solveStep stuckEnv () = Some (Return True, st)" by blast
  then have "solvingLoop stuckEnv (Suc n) () rs =
      solvingLoop stuckEnv n () (rs @ [Return True])"
    by simp
  with Suc.IH [of "rs @ [Return True]"] show ?case
    by (simp add: replicate_app_Cons_same)
qed

theorem mainLoop_bounded_witness:
  "fixedSize stuckEnv 2 2 \<and>
   mainLoop stuckEnv () = Some (replicate 100 (Return True), ()) \<and>
   length (replicate 100 (Return True)) \<le> (100 :: nat) \<and>
   mainLoop envFlags pageOver = Some ([Return False], pageOver)"
proof -
  have run: "mainLoop stuckEnv () = Some (replicate 100 (Return True), ())"
    using stuckEnv_loop [of 100 "[]"] by (simp add: mainLoop_def)
  from mainLoop_bounded [of stuckEnv "()"] stuckEnv_fixedSize
  have "mainLoop stuckEnv () \<noteq> None" by blast
  from mainLoop_bounded [of stuckEnv "()"] run
  have len: "length (replicate 100 (Return True)) \<le> (100 :: nat)" by blast
  have over: "mainLoop envFlags pageOver = Some ([Return False], pageOver)" by code_simp
  from stuckEnv_fixedSize run len over show ?thesis by (intro conjI)
qed

end
